theory Spec2Isabelle
  imports Complex_Main "HOL-Library.Word"
begin

unbundle bit_operations_syntax

section \<open>Data model of the sweep-and-prune header\<close>

text \<open>
  \<^verbatim>\<open>uint\<close> is the 32-bit unsigned integer of the source. A \<^verbatim>\<open>float\<close> is modelled by its
  32-bit pattern (IEEE 754 binary32), which is all that \<^verbatim>\<open>(uint&) number\<close> reads.
  \<^verbatim>\<open>bodyindex\<close> is an unsigned index type; the code below only compares and reads
  such indices, so they are natural numbers.
\<close>

type_synonym uint = "32 word"
type_synonym float = "32 word"
type_synonym bodyindex = nat
type_synonym CollisionBody = nat

text \<open>
  \<^verbatim>\<open>struct EndPoint { bodyindex boxID; bool isMin; uint value; }\<close>.
  The field \<^verbatim>\<open>value\<close> carries the suffix \<open>_ep\<close>.
\<close>

record EndPoint =
  boxID :: bodyindex
  isMin :: bool
  value_ep :: uint

text \<open>
  \<^verbatim>\<open>struct BoxAABB { bodyindex min[3]; bodyindex max[3]; CollisionBody* body; }\<close> and
  \<^verbatim>\<open>struct AABBInt { uint min[3]; uint max[3]; }\<close>. An array of three elements is a
  function of the axis 0, 1, 2; a read at any other axis is out of range. The fields
  \<^verbatim>\<open>min\<close> and \<^verbatim>\<open>max\<close> carry a suffix, since both structures use the names.
\<close>

record BoxAABB =
  min_box :: "nat \<Rightarrow> bodyindex"
  max_box :: "nat \<Rightarrow> bodyindex"
  body :: CollisionBody

record AABBInt =
  min_int :: "nat \<Rightarrow> uint"
  max_int :: "nat \<Rightarrow> uint"

section \<open>The functions defined in the header\<close>

text \<open>
  \<^verbatim>\<open>
  inline uint encodeFloatIntoInteger(float number) {
      uint intNumber = (uint&) number;
      if(intNumber & 0x80000000)
          intNumber = ~intNumber;
      else {
          intNumber |= 0x80000000;
      }
      return intNumber;
  }
  \<close>
\<close>

definition encodeFloatIntoInteger :: "float \<Rightarrow> uint" where
  "encodeFloatIntoInteger number =
     (let intNumber = number in
      if intNumber AND 0x80000000 \<noteq> 0 then NOT intNumber
      else intNumber OR 0x80000000)"

text \<open>
  \<^verbatim>\<open>return !(endPointsArray[box1.max[axis]].value < box2.min[axis]);\<close>
  The array is a raw pointer in the source, so a read past its end (or at an axis
  other than 0, 1, 2) is undefined there; the model returns \<open>None\<close> for it.
\<close>

definition testIntersect1DSortedAABBs ::
    "BoxAABB \<Rightarrow> AABBInt \<Rightarrow> EndPoint list \<Rightarrow> nat \<Rightarrow> bool option" where
  "testIntersect1DSortedAABBs box1 box2 endPointsArray axis =
     (if axis < 3 \<and> max_box box1 axis < length endPointsArray
      then Some (\<not> (value_ep (endPointsArray ! max_box box1 axis) < min_int box2 axis))
      else None)"

text \<open>
  \<^verbatim>\<open>
  return !(box2.max[axis1] < box1.min[axis1] || box1.max[axis1] < box2.min[axis1] ||
           box2.max[axis2] < box1.min[axis2] || box1.max[axis2] < box2.min[axis2]);
  \<close>
\<close>

definition testIntersect2D :: "BoxAABB \<Rightarrow> BoxAABB \<Rightarrow> nat \<Rightarrow> nat \<Rightarrow> bool option" where
  "testIntersect2D box1 box2 axis1 axis2 =
     (if axis1 < 3 \<and> axis2 < 3
      then Some (\<not> (max_box box2 axis1 < min_box box1 axis1 \<or>
                     max_box box1 axis1 < min_box box2 axis1 \<or>
                     max_box box2 axis2 < min_box box1 axis2 \<or>
                     max_box box1 axis2 < min_box box2 axis2))
      else None)"

section \<open>Notions the properties are stated with\<close>

text \<open>
  The rule of the specification for the codec, in its words: if the sign bit is set,
  the bitwise complement; otherwise the pattern with the sign bit set.
\<close>

definition encode_spec :: "float \<Rightarrow> uint" where
  "encode_spec w = (if bit w 31 then NOT w else w OR 0x80000000)"

text \<open>
  The value of a binary32 pattern: sign bit 31, biased exponent in bits 30 to 23,
  fraction in bits 22 to 0. A pattern is finite when its exponent field is not 255
  (infinities and NaN). On finite floats the comparison \<^verbatim>\<open>a < b\<close> of the language is
  the comparison of these values.
\<close>

definition float_sign :: "float \<Rightarrow> bool" where
  "float_sign w = bit w 31"

definition float_exponent :: "float \<Rightarrow> nat" where
  "float_exponent w = unat (drop_bit 23 w AND 0xFF)"

definition float_fraction :: "float \<Rightarrow> nat" where
  "float_fraction w = unat (w AND 0x7FFFFF)"

definition float_finite :: "float \<Rightarrow> bool" where
  "float_finite w = (float_exponent w \<noteq> 255)"

definition float_val :: "float \<Rightarrow> real" where
  "float_val w =
     (if float_sign w then - 1 else 1) *
     (if float_exponent w = 0
      then (real (float_fraction w) / 2 ^ 23) * (2 / 2 ^ 127)
      else (1 + real (float_fraction w) / 2 ^ 23) * (2 ^ float_exponent w / 2 ^ 127))"

definition float_less :: "float \<Rightarrow> float \<Rightarrow> bool" where
  "float_less a b = (float_val a < float_val b)"

text \<open>The closed intervals \<open>[lo1, hi1]\<close> and \<open>[lo2, hi2]\<close> have a common point.\<close>

definition intervals_intersect :: "uint \<Rightarrow> uint \<Rightarrow> uint \<Rightarrow> uint \<Rightarrow> bool" where
  "intervals_intersect lo1 hi1 lo2 hi2 = (max lo1 lo2 \<le> min hi1 hi2)"

text \<open>The value interval of a box on an axis, read through its end-point indices.\<close>

definition box_lo :: "EndPoint list \<Rightarrow> BoxAABB \<Rightarrow> nat \<Rightarrow> uint" where
  "box_lo endPointsArray box axis = value_ep (endPointsArray ! min_box box axis)"

definition box_hi :: "EndPoint list \<Rightarrow> BoxAABB \<Rightarrow> nat \<Rightarrow> uint" where
  "box_hi endPointsArray box axis = value_ep (endPointsArray ! max_box box axis)"

text \<open>Both end-point indices of a box on an axis lie inside the array.\<close>

definition indices_in_range :: "EndPoint list \<Rightarrow> BoxAABB \<Rightarrow> nat \<Rightarrow> bool" where
  "indices_in_range endPointsArray box axis =
     (min_box box axis < length endPointsArray \<and> max_box box axis < length endPointsArray)"

text \<open>Auxiliary: the low 31 bits of a pattern and the magnitude they stand for,
  scaled by \<open>2 ^ 149\<close>.\<close>

definition low31 :: "float \<Rightarrow> nat" where
  "low31 w = unat w mod 2 ^ 31"

definition magnitude :: "nat \<Rightarrow> nat" where
  "magnitude k = (if k div 2 ^ 23 = 0 then k mod 2 ^ 23
                  else (2 ^ 23 + k mod 2 ^ 23) * 2 ^ (k div 2 ^ 23 - 1))"

text \<open>Auxiliary: the inverse of the encoding.\<close>

definition decodeIntegerIntoFloat :: "uint \<Rightarrow> float" where
  "decodeIntegerIntoFloat u = (if bit u 31 then unset_bit 31 u else NOT u)"

section \<open>The sweep-and-prune structure\<close>

text \<open>
  The header declares \<^verbatim>\<open>addObject\<close>, \<^verbatim>\<open>removeObject\<close>, \<^verbatim>\<open>updateObject\<close>, \<^verbatim>\<open>addPair\<close> and the
  constructor \<^verbatim>\<open>AABBInt(const AABB&)\<close>; their bodies (SweepAndPruneAlgorithm.cpp) and the
  types \<^verbatim>\<open>AABB\<close> and \<^verbatim>\<open>BroadPhaseAlgorithm\<close> are not among the sources. The definitions of
  this section model them from the specification, sections 3, 4.2, 6 and 7.
\<close>

text \<open>
  Modelled from the spec: the floating-point AABB (\<^verbatim>\<open>AABB.h\<close> is missing), "a
  floating-point axis-aligned bounding box value (six scalars)": a minimum and a
  maximum on each of the axes 0, 1, 2.
\<close>

record AABB =
  min_aabb :: "nat \<Rightarrow> float"
  max_aabb :: "nat \<Rightarrow> float"

text \<open>
  Modelled from the spec: the body of the constructor \<^verbatim>\<open>AABBInt(const AABB&)\<close> is
  missing. The codec is "applied independently to each of the six scalar components of a
  floating-point AABB (three min, three max) to build the IntegerAABB".
\<close>

definition AABBInt_of :: "AABB \<Rightarrow> AABBInt" where
  "AABBInt_of aabb =
     \<lparr>min_int = (\<lambda>axis. encodeFloatIntoInteger (min_aabb aabb axis)),
      max_int = (\<lambda>axis. encodeFloatIntoInteger (max_aabb aabb axis))\<rparr>"

text \<open>
  Modelled from the spec: the outbound interface, which is missing from the sources:
  "pair-added(bodyA, bodyB) and pair-removed(bodyA, bodyB) notifications, each pair
  unordered".
\<close>

datatype notification =
  PairAdded CollisionBody CollisionBody
| PairRemoved CollisionBody CollisionBody

text \<open>
  Modelled from the spec: the error taxonomy of section 7, "Unknown-body error:
  update/remove called for a body not currently tracked" and "Duplicate-body error: add
  called for a body already tracked". The header's methods return \<^verbatim>\<open>void\<close>; the model
  returns the error or the new state.
\<close>

datatype sap_error = UnknownBody | DuplicateBody

text \<open>
  Modelled from the spec: the state of the structure. The attributes are those of the
  header; how the missing code uses them follows section 3:
  \<^item> \<open>mEndPoints axis\<close> is the used part of the end-point array of the axis;
  \<^item> \<open>mBoxes\<close> holds, for every box slot, the owning body; the end-point indices of a
    box (\<^verbatim>\<open>BoxAABB::min\<close>, \<^verbatim>\<open>BoxAABB::max\<close>) are the positions of its two markers in the
    arrays and are read from the arrays, not stored;
  \<^item> \<open>mFreeBoxIndices\<close> is the free-list of box slots and \<open>mMapBodyToBoxIndex\<close> the mapping
    from a body to its box slot;
  \<^item> the allocated capacity (\<^verbatim>\<open>mNbMaxBoxes\<close>) is not modelled: "capacity-exhaustion is not
    an error: arrays grow automatically";
  \<^item> \<open>mOverlappingPairs\<close> is the current set of overlapping pairs (the "pair-sets" of
    section 8) and \<open>mNotifications\<close> the notifications sent so far, oldest first.
\<close>

record SweepAndPruneAlgorithm =
  mBoxes :: "CollisionBody list"
  mEndPoints :: "nat \<Rightarrow> EndPoint list"
  mFreeBoxIndices :: "bodyindex list"
  mMapBodyToBoxIndex :: "CollisionBody \<rightharpoonup> bodyindex"
  mOverlappingPairs :: "(CollisionBody \<times> CollisionBody) list"
  mNotifications :: "notification list"

text \<open>Modelled from the spec: the missing constructor gives the empty structure.\<close>

definition emptySweepAndPrune :: SweepAndPruneAlgorithm where
  "emptySweepAndPrune =
     \<lparr>mBoxes = [], mEndPoints = (\<lambda>axis. []), mFreeBoxIndices = [],
      mMapBodyToBoxIndex = Map.empty, mOverlappingPairs = [], mNotifications = []\<rparr>"

text \<open>An unordered pair of bodies is kept with the smaller body first.\<close>

definition pairKey :: "CollisionBody \<Rightarrow> CollisionBody \<Rightarrow> CollisionBody \<times> CollisionBody" where
  "pairKey body1 body2 = (min body1 body2, max body1 body2)"

text \<open>
  Modelled from the spec: the body of \<^verbatim>\<open>addPair\<close> is missing, and so is the removal of a
  pair. Each pair is "reported at most once per transition (a pair must not be reported
  added twice without an intervening removed, and vice versa)": a pair that is already
  in the current set is not added again, and only a pair of the set is removed.
\<close>

definition addPair ::
    "CollisionBody \<Rightarrow> CollisionBody \<Rightarrow> SweepAndPruneAlgorithm \<Rightarrow> SweepAndPruneAlgorithm" where
  "addPair body1 body2 s =
     (if pairKey body1 body2 \<in> set (mOverlappingPairs s) then s
      else s\<lparr>mOverlappingPairs := pairKey body1 body2 # mOverlappingPairs s,
             mNotifications := mNotifications s @ [PairAdded body1 body2]\<rparr>)"

definition removePair ::
    "CollisionBody \<Rightarrow> CollisionBody \<Rightarrow> SweepAndPruneAlgorithm \<Rightarrow> SweepAndPruneAlgorithm" where
  "removePair body1 body2 s =
     (if pairKey body1 body2 \<in> set (mOverlappingPairs s)
      then s\<lparr>mOverlappingPairs := removeAll (pairKey body1 body2) (mOverlappingPairs s),
             mNotifications := mNotifications s @ [PairRemoved body1 body2]\<rparr>
      else s)"

text \<open>
  Modelled from the spec: reading the stored integer box of a box slot from its two
  markers on every axis. A marker that is not in the array reads as 0; every live box
  has both markers.
\<close>

definition endPointValue :: "EndPoint list \<Rightarrow> bodyindex \<Rightarrow> bool \<Rightarrow> uint" where
  "endPointValue endPointsArray b m =
     (case find (\<lambda>e. boxID e = b \<and> isMin e = m) endPointsArray of
        Some e \<Rightarrow> value_ep e | None \<Rightarrow> 0)"

definition boxAABBInt :: "SweepAndPruneAlgorithm \<Rightarrow> bodyindex \<Rightarrow> AABBInt" where
  "boxAABBInt s b =
     \<lparr>min_int = (\<lambda>axis. endPointValue (mEndPoints s axis) b True),
      max_int = (\<lambda>axis. endPointValue (mEndPoints s axis) b False)\<rparr>"

text \<open>
  Modelled from the spec: "true 3D overlaps (overlap on x AND y AND z simultaneously)",
  decided on the integer values with the two comparisons per axis that the header's
  \<open>testIntersect2D\<close> makes.
\<close>

definition overlap1D :: "AABBInt \<Rightarrow> AABBInt \<Rightarrow> nat \<Rightarrow> bool" where
  "overlap1D box1 box2 axis =
     (\<not> (max_int box1 axis < min_int box2 axis \<or> max_int box2 axis < min_int box1 axis))"

definition overlap3D :: "AABBInt \<Rightarrow> AABBInt \<Rightarrow> bool" where
  "overlap3D box1 box2 =
     (overlap1D box1 box2 0 \<and> overlap1D box1 box2 1 \<and> overlap1D box1 box2 2)"

text \<open>
  Modelled from the spec: a new marker is inserted "at its sorted position (insertion,
  not append-then-sort)": before the first marker of greater value.
\<close>

fun insertEndPoint :: "EndPoint \<Rightarrow> EndPoint list \<Rightarrow> EndPoint list" where
  "insertEndPoint e [] = [e]"
| "insertEndPoint e (x # xs) =
     (if value_ep e < value_ep x then e # x # xs else x # insertEndPoint e xs)"

text \<open>
  Modelled from the spec: "Allocates a box slot (reuse from free-list, else grow arrays
  when full)": the first slot of the free-list, or a new slot at the end of the boxes.
\<close>

definition newBoxIndex :: "SweepAndPruneAlgorithm \<Rightarrow> bodyindex" where
  "newBoxIndex s = (case mFreeBoxIndices s of [] \<Rightarrow> length (mBoxes s) | i # free \<Rightarrow> i)"

text \<open>
  Modelled from the spec: \<^verbatim>\<open>addObject(body, aabb)\<close> "must not already be tracked";
  it "allocates a box slot, computes the IntegerAABB, inserts six new markers into the
  three axis arrays at their sorted positions, registers body->box mapping, and, for the
  newly inserted box, tests it against all currently overlapping candidates to emit
  initial pair-added events for any true 3D overlaps". The candidates are the boxes
  with a minimum marker on axis 0, that is all the other live boxes.
\<close>

definition addObject ::
    "CollisionBody \<Rightarrow> AABB \<Rightarrow> SweepAndPruneAlgorithm \<Rightarrow> sap_error + SweepAndPruneAlgorithm" where
  "addObject body' aabb s =
     (if mMapBodyToBoxIndex s body' \<noteq> None then Inl DuplicateBody
      else
        let boxIndex = newBoxIndex s;
            aabbInt = AABBInt_of aabb;
            overlapping = filter (\<lambda>c. overlap3D aabbInt (boxAABBInt s c))
                            (map boxID (filter isMin (mEndPoints s 0)));
            s1 = s\<lparr>mBoxes := (if mFreeBoxIndices s = [] then mBoxes s @ [body']
                                 else (mBoxes s)[boxIndex := body']),
                   mFreeBoxIndices := tl (mFreeBoxIndices s),
                   mEndPoints := (\<lambda>axis.
                      insertEndPoint \<lparr>boxID = boxIndex, isMin = False, value_ep = max_int aabbInt axis\<rparr>
                        (insertEndPoint \<lparr>boxID = boxIndex, isMin = True, value_ep = min_int aabbInt axis\<rparr>
                           (mEndPoints s axis))),
                   mMapBodyToBoxIndex := (mMapBodyToBoxIndex s)(body' \<mapsto> boxIndex)\<rparr>
        in Inr (fold (\<lambda>c. addPair body' (mBoxes s ! c)) overlapping s1))"

text \<open>
  Modelled from the spec: \<^verbatim>\<open>removeObject(body)\<close> "must be tracked"; it "removes its six
  markers from the axis arrays (shifting subsequent entries), emits pair-removed events
  for every pair currently involving this box, returns its box slot to the free-list,
  and erases the body->box mapping".
\<close>

definition removeObject ::
    "CollisionBody \<Rightarrow> SweepAndPruneAlgorithm \<Rightarrow> sap_error + SweepAndPruneAlgorithm" where
  "removeObject body' s =
     (case mMapBodyToBoxIndex s body' of
        None \<Rightarrow> Inl UnknownBody
      | Some boxIndex \<Rightarrow>
          Inr (s\<lparr>mEndPoints := (\<lambda>axis. filter (\<lambda>e. boxID e \<noteq> boxIndex) (mEndPoints s axis)),
                 mNotifications := mNotifications s @
                    map (\<lambda>p. PairRemoved (fst p) (snd p))
                      (filter (\<lambda>p. fst p = body' \<or> snd p = body') (mOverlappingPairs s)),
                 mOverlappingPairs :=
                    filter (\<lambda>p. \<not> (fst p = body' \<or> snd p = body')) (mOverlappingPairs s),
                 mFreeBoxIndices := boxIndex # mFreeBoxIndices s,
                 mMapBodyToBoxIndex := (mMapBodyToBoxIndex s)(body' := None)\<rparr>))"

text \<open>
  Modelled from the spec: the local exchange pass of \<^verbatim>\<open>updateObject\<close>, "repeatedly compare
  each moved marker against its immediate neighbor and swap if out of order, continuing
  until no further swap is needed". The array is split at the moved marker: \<open>ls\<close> holds
  the markers before it, nearest first, and \<open>rs\<close> the markers after it. One step of
  \<open>siftLeft\<close> (of \<open>siftRight\<close>) is one swap with the left (right) neighbour; \<open>passed\<close>
  collects the markers the moved marker was swapped with.
\<close>

fun splitAtEndPoint :: "(EndPoint \<Rightarrow> bool) \<Rightarrow> EndPoint list \<Rightarrow> EndPoint list \<Rightarrow>
    (EndPoint list \<times> EndPoint \<times> EndPoint list) option" where
  "splitAtEndPoint P ls [] = None"
| "splitAtEndPoint P ls (x # xs) =
     (if P x then Some (ls, x, xs) else splitAtEndPoint P (x # ls) xs)"

fun siftLeft :: "uint \<Rightarrow> EndPoint list \<Rightarrow> EndPoint list \<Rightarrow> EndPoint list \<Rightarrow>
    EndPoint list \<times> EndPoint list \<times> EndPoint list" where
  "siftLeft v [] rs passed = ([], rs, passed)"
| "siftLeft v (l # ls) rs passed =
     (if v < value_ep l then siftLeft v ls (l # rs) (passed @ [l])
      else (l # ls, rs, passed))"

fun siftRight :: "uint \<Rightarrow> EndPoint list \<Rightarrow> EndPoint list \<Rightarrow> EndPoint list \<Rightarrow>
    EndPoint list \<times> EndPoint list \<times> EndPoint list" where
  "siftRight v ls [] passed = (ls, [], passed)"
| "siftRight v ls (r # rs) passed =
     (if value_ep r < v then siftRight v (r # ls) rs (passed @ [r])
      else (ls, r # rs, passed))"

text \<open>
  Modelled from the spec: moving one marker of box \<open>b\<close> (its minimum when \<open>m\<close> holds) to
  the value \<open>v\<close>: the value is stored and the marker is exchanged with its neighbours.
  The second component lists the boxes crossed: "every swap that moves a min marker past
  a max marker of another box" (or a max marker past a min marker) asks for a recheck of
  that pair, while "swaps between two markers of the same kind require no pair recheck".
\<close>

definition moveEndPoint ::
    "bodyindex \<Rightarrow> bool \<Rightarrow> uint \<Rightarrow> EndPoint list \<Rightarrow> EndPoint list \<times> bodyindex list" where
  "moveEndPoint b m v endPointsArray =
     (case splitAtEndPoint (\<lambda>e. boxID e = b \<and> isMin e = m) [] endPointsArray of
        None \<Rightarrow> (endPointsArray, [])
      | Some (ls, e, rs) \<Rightarrow>
          (case siftLeft v ls rs [] of (ls1, rs1, passed1) \<Rightarrow>
           case siftRight v ls1 rs1 passed1 of (ls2, rs2, passed2) \<Rightarrow>
             (rev ls2 @ e\<lparr>value_ep := v\<rparr> # rs2,
              map boxID (filter (\<lambda>x. isMin x \<noteq> m \<and> boxID x \<noteq> b) passed2))))"

text \<open>
  Modelled from the spec: on one axis the minimum marker of the box is moved, then its
  maximum marker.
\<close>

definition updateAxis ::
    "bodyindex \<Rightarrow> uint \<Rightarrow> uint \<Rightarrow> EndPoint list \<Rightarrow> EndPoint list \<times> bodyindex list" where
  "updateAxis b vmin vmax endPointsArray =
     (case moveEndPoint b True vmin endPointsArray of (xs1, crossed1) \<Rightarrow>
      case moveEndPoint b False vmax xs1 of (xs2, crossed2) \<Rightarrow> (xs2, crossed1 @ crossed2))"

text \<open>
  Modelled from the spec: at a crossing, "recompute full 3D overlap between the two
  boxes (all three axes, not just the axis being swept) and emit pair-added if overlap
  newly became true, pair-removed if it newly became false". The box \<open>b\<close> is the updated
  one, with its new integer box \<open>aabbInt\<close>; \<open>c\<close> is the box crossed.
\<close>

definition recheckPair ::
    "bodyindex \<Rightarrow> AABBInt \<Rightarrow> bodyindex \<Rightarrow> SweepAndPruneAlgorithm \<Rightarrow> SweepAndPruneAlgorithm" where
  "recheckPair b aabbInt c s =
     (if overlap3D aabbInt (boxAABBInt s c)
      then addPair (mBoxes s ! b) (mBoxes s ! c) s
      else removePair (mBoxes s ! b) (mBoxes s ! c) s)"

text \<open>
  Modelled from the spec: \<^verbatim>\<open>updateObject(body, newAabb)\<close> "must be tracked"; it "recomputes
  the IntegerAABB, updates the stored min/max values for the box's six markers, and
  re-establishes sorted order per axis using a local exchange pass", rechecking the
  pairs of the boxes crossed.
\<close>

definition updateObject ::
    "CollisionBody \<Rightarrow> AABB \<Rightarrow> SweepAndPruneAlgorithm \<Rightarrow> sap_error + SweepAndPruneAlgorithm" where
  "updateObject body' aabb s =
     (case mMapBodyToBoxIndex s body' of
        None \<Rightarrow> Inl UnknownBody
      | Some boxIndex \<Rightarrow>
          let aabbInt = AABBInt_of aabb;
              moved = (\<lambda>axis. updateAxis boxIndex (min_int aabbInt axis) (max_int aabbInt axis)
                                 (mEndPoints s axis));
              s1 = s\<lparr>mEndPoints := (\<lambda>axis. fst (moved axis))\<rparr>
          in Inr (fold (recheckPair boxIndex aabbInt)
                    (snd (moved 0) @ snd (moved 1) @ snd (moved 2)) s1))"

text \<open>
  A finite sequence of calls, run from a given state. The run stops at the first call
  that reports an error.
\<close>

datatype operation =
  AddObject CollisionBody AABB
| RemoveObject CollisionBody
| UpdateObject CollisionBody AABB

fun perform :: "operation \<Rightarrow> SweepAndPruneAlgorithm \<Rightarrow> sap_error + SweepAndPruneAlgorithm" where
  "perform (AddObject b aabb) s = addObject b aabb s"
| "perform (RemoveObject b) s = removeObject b s"
| "perform (UpdateObject b aabb) s = updateObject b aabb s"

fun run :: "operation list \<Rightarrow> SweepAndPruneAlgorithm \<Rightarrow> sap_error + SweepAndPruneAlgorithm" where
  "run [] s = Inr s"
| "run (x # xs) s = (case perform x s of Inl e \<Rightarrow> Inl e | Inr s' \<Rightarrow> run xs s')"

section \<open>Notions for the properties of the structure\<close>

text \<open>The key of a marker: its box and its kind.\<close>

definition endPointKey :: "EndPoint \<Rightarrow> bodyindex \<times> bool" where
  "endPointKey e = (boxID e, isMin e)"

text \<open>The live boxes are the box slots of the tracked bodies.\<close>

definition liveBoxes :: "SweepAndPruneAlgorithm \<Rightarrow> bodyindex set" where
  "liveBoxes s = ran (mMapBodyToBoxIndex s)"

text \<open>The invariants of section 3 of the specification.\<close>

definition arraysSorted :: "SweepAndPruneAlgorithm \<Rightarrow> bool" where
  "arraysSorted s = (\<forall>axis. sorted (map value_ep (mEndPoints s axis)))"

definition markersMatch :: "SweepAndPruneAlgorithm \<Rightarrow> bool" where
  "markersMatch s =
     (\<forall>axis. distinct (map endPointKey (mEndPoints s axis)) \<and>
             endPointKey ` set (mEndPoints s axis) = liveBoxes s \<times> UNIV)"

definition slotsConsistent :: "SweepAndPruneAlgorithm \<Rightarrow> bool" where
  "slotsConsistent s =
     (inj_on (mMapBodyToBoxIndex s) (dom (mMapBodyToBoxIndex s)) \<and>
      (\<forall>b i. mMapBodyToBoxIndex s b = Some i \<longrightarrow> i < length (mBoxes s) \<and> mBoxes s ! i = b) \<and>
      distinct (mFreeBoxIndices s) \<and>
      set (mFreeBoxIndices s) \<inter> liveBoxes s = {} \<and>
      (\<forall>i \<in> set (mFreeBoxIndices s). i < length (mBoxes s)))"

definition pairsTracked :: "SweepAndPruneAlgorithm \<Rightarrow> bool" where
  "pairsTracked s =
     (\<forall>p \<in> set (mOverlappingPairs s).
        fst p \<in> dom (mMapBodyToBoxIndex s) \<and> snd p \<in> dom (mMapBodyToBoxIndex s))"

definition wellFormed :: "SweepAndPruneAlgorithm \<Rightarrow> bool" where
  "wellFormed s = (arraysSorted s \<and> markersMatch s \<and> slotsConsistent s \<and> pairsTracked s)"

text \<open>
  A float interval whose ends are finite, with the minimum not above the maximum as
  floats, and which is not the pair minimum \<open>+0.0\<close>, maximum \<open>-0.0\<close>.
\<close>

definition properInterval :: "float \<Rightarrow> float \<Rightarrow> bool" where
  "properInterval lo hi =
     (float_finite lo \<and> float_finite hi \<and> \<not> float_less hi lo \<and> \<not> (lo = 0 \<and> hi = 0x80000000))"

definition properAABB :: "AABB \<Rightarrow> bool" where
  "properAABB aabb =
     (properInterval (min_aabb aabb 0) (max_aabb aabb 0) \<and>
      properInterval (min_aabb aabb 1) (max_aabb aabb 1) \<and>
      properInterval (min_aabb aabb 2) (max_aabb aabb 2))"

fun properOperation :: "operation \<Rightarrow> bool" where
  "properOperation (AddObject b aabb) = properAABB aabb"
| "properOperation (RemoveObject b) = True"
| "properOperation (UpdateObject b aabb) = properAABB aabb"

definition minBelowMax :: "SweepAndPruneAlgorithm \<Rightarrow> bool" where
  "minBelowMax s =
     (\<forall>i \<in> liveBoxes s. \<forall>axis \<in> {0, 1, 2}.
        endPointValue (mEndPoints s axis) i True \<le> endPointValue (mEndPoints s axis) i False)"

text \<open>
  The notifications about one unordered pair, in the order they were sent: \<open>True\<close> for
  pair-added, \<open>False\<close> for pair-removed. They alternate when no two neighbours are equal.
  A pair is reported when its last notification is pair-added.
\<close>

fun pairOf :: "notification \<Rightarrow> CollisionBody \<times> CollisionBody" where
  "pairOf (PairAdded a b) = pairKey a b"
| "pairOf (PairRemoved a b) = pairKey a b"

fun isAdded :: "notification \<Rightarrow> bool" where
  "isAdded (PairAdded a b) = True"
| "isAdded (PairRemoved a b) = False"

definition notificationsOf :: "CollisionBody \<times> CollisionBody \<Rightarrow> notification list \<Rightarrow> bool list" where
  "notificationsOf p evs = map isAdded (filter (\<lambda>e. pairOf e = p) evs)"

fun alternating :: "bool list \<Rightarrow> bool" where
  "alternating (x # y # r) = (x \<noteq> y \<and> alternating (y # r))"
| "alternating r = True"

definition reported :: "CollisionBody \<times> CollisionBody \<Rightarrow> notification list \<Rightarrow> bool" where
  "reported p evs = (notificationsOf p evs \<noteq> [] \<and> last (notificationsOf p evs))"

definition pairsLogged :: "SweepAndPruneAlgorithm \<Rightarrow> bool" where
  "pairsLogged s =
     (distinct (mOverlappingPairs s) \<and>
      (\<forall>p \<in> set (mOverlappingPairs s). fst p \<le> snd p) \<and>
      (\<forall>p. alternating (notificationsOf p (mNotifications s)) \<and>
           (p \<in> set (mOverlappingPairs s) \<longleftrightarrow> reported p (mNotifications s))))"


text \<open>
  Notions for pair completeness. On one axis no minimum marker has the value of a maximum
  marker of another box: the boxes do not merely touch. A local exchange pass swaps two
  neighbours only when they are out of order, so markers of equal value never cross.
\<close>

definition noTouchingAxis :: "EndPoint list \<Rightarrow> bool" where
  "noTouchingAxis xs = list_all (\<lambda>e. list_all (\<lambda>e'.
     \<not> (isMin e \<and> \<not> isMin e' \<and> boxID e \<noteq> boxID e' \<and> value_ep e = value_ep e')) xs) xs"

definition noTouching :: "SweepAndPruneAlgorithm \<Rightarrow> bool" where
  "noTouching s = (noTouchingAxis (mEndPoints s 0) \<and> noTouchingAxis (mEndPoints s 1) \<and>
     noTouchingAxis (mEndPoints s 2))"

text \<open>No boxes touch in any state reached after a call of the sequence.\<close>

fun noTouchingAlong :: "operation list \<Rightarrow> SweepAndPruneAlgorithm \<Rightarrow> bool" where
  "noTouchingAlong [] s = True"
| "noTouchingAlong (x # xs) s =
     (case perform x s of Inl e \<Rightarrow> True | Inr s' \<Rightarrow> noTouching s' \<and> noTouchingAlong xs s')"

text \<open>
  The pair set is exact when it holds the pair of two distinct tracked bodies precisely when
  their boxes overlap on the three axes, by the stored integer values.
\<close>

definition pairsExact :: "SweepAndPruneAlgorithm \<Rightarrow> bool" where
  "pairsExact s =
     (\<forall>x y i j. mMapBodyToBoxIndex s x = Some i \<longrightarrow> mMapBodyToBoxIndex s y = Some j \<longrightarrow> x \<noteq> y \<longrightarrow>
        (pairKey x y \<in> set (mOverlappingPairs s) \<longleftrightarrow>
           overlap3D (boxAABBInt s i) (boxAABBInt s j)))"

definition noSelfPairs :: "SweepAndPruneAlgorithm \<Rightarrow> bool" where
  "noSelfPairs s = (\<forall>p \<in> set (mOverlappingPairs s). fst p \<noteq> snd p)"

text \<open>
  The AABB supplied last for each live body: \<open>addObject\<close> and \<open>updateObject\<close> record it,
  \<open>removeObject\<close> forgets the body.
\<close>

fun lastAABBs :: "operation list \<Rightarrow> (CollisionBody \<rightharpoonup> AABB) \<Rightarrow> (CollisionBody \<rightharpoonup> AABB)" where
  "lastAABBs [] boxes = boxes"
| "lastAABBs (AddObject b aabb # xs) boxes = lastAABBs xs (boxes(b \<mapsto> aabb))"
| "lastAABBs (RemoveObject b # xs) boxes = lastAABBs xs (boxes(b := None))"
| "lastAABBs (UpdateObject b aabb # xs) boxes = lastAABBs xs (boxes(b \<mapsto> aabb))"

text \<open>
  The pairs reported at present, and the pairs of distinct bodies whose AABBs supplied last
  overlap on the three axes once encoded.
\<close>

definition reportedPairs :: "notification list \<Rightarrow> (CollisionBody \<times> CollisionBody) set" where
  "reportedPairs evs = {p. reported p evs}"

definition overlappingPairs :: "(CollisionBody \<rightharpoonup> AABB) \<Rightarrow> (CollisionBody \<times> CollisionBody) set" where
  "overlappingPairs boxes =
     {pairKey x y | x y a a'. x \<noteq> y \<and> boxes x = Some a \<and> boxes y = Some a' \<and>
        overlap3D (AABBInt_of a) (AABBInt_of a')}"

text \<open>
  Two floating-point AABBs overlap on an axis when neither lies wholly below the other, by
  the order of floats; they overlap when they do so on the three axes.
\<close>

definition floatOverlap1D :: "AABB \<Rightarrow> AABB \<Rightarrow> nat \<Rightarrow> bool" where
  "floatOverlap1D a a' axis =
     (\<not> (float_less (max_aabb a axis) (min_aabb a' axis) \<or>
         float_less (max_aabb a' axis) (min_aabb a axis)))"

definition floatOverlap :: "AABB \<Rightarrow> AABB \<Rightarrow> bool" where
  "floatOverlap a a' = (floatOverlap1D a a' 0 \<and> floatOverlap1D a a' 1 \<and> floatOverlap1D a a' 2)"

text \<open>The stored boxes are the encodings of the AABBs supplied last.\<close>

definition storedAABBs :: "SweepAndPruneAlgorithm \<Rightarrow> (CollisionBody \<rightharpoonup> AABB) \<Rightarrow> bool" where
  "storedAABBs s boxes =
     ((\<forall>x. boxes x = None \<longleftrightarrow> mMapBodyToBoxIndex s x = None) \<and>
      (\<forall>x i a. mMapBodyToBoxIndex s x = Some i \<longrightarrow> boxes x = Some a \<longrightarrow>
         boxAABBInt s i = AABBInt_of a))"

definition pairsFaithful :: "SweepAndPruneAlgorithm \<Rightarrow> (CollisionBody \<rightharpoonup> AABB) \<Rightarrow> bool" where
  "pairsFaithful s boxes =
     (wellFormed s \<and> pairsExact s \<and> noSelfPairs s \<and> storedAABBs s boxes \<and> noTouching s)"

section \<open>The codec\<close>

lemma sign_test: "((w::uint) AND 0x80000000 \<noteq> 0) = bit w 31"
  using and_exp_eq_0_iff_not_bit [of w 31] by simp

lemma encode_bit_form:
  "encodeFloatIntoInteger w = (if bit w 31 then NOT w else set_bit 31 w)"
  unfolding encodeFloatIntoInteger_def Let_def sign_test
  using set_bit_eq_or [of 31 w] by simp

lemma decode_encode: "decodeIntegerIntoFloat (encodeFloatIntoInteger w) = w"
  unfolding encode_bit_form decodeIntegerIntoFloat_def
  by (rule bit_word_eqI) (auto simp add: bit_simps)

lemma encode_decode: "encodeFloatIntoInteger (decodeIntegerIntoFloat w) = w"
  unfolding encode_bit_form decodeIntegerIntoFloat_def
  by (rule bit_word_eqI) (auto simp add: bit_simps)

lemma encode_inject: "encodeFloatIntoInteger a = encodeFloatIntoInteger b \<longleftrightarrow> a = b"
  by (metis decode_encode)

lemma bit31: "bit (w::uint) 31 \<longleftrightarrow> 2^31 \<le> unat w"
proof -
  have lt: "unat w < 2^32" using unsigned_less [of w] by simp
  have "bit w 31 \<longleftrightarrow> bit (unat w) 31" by (simp add: bit_unsigned_iff)
  also have "\<dots> \<longleftrightarrow> odd (unat w div 2^31)" by (simp add: bit_iff_odd)
  also have "\<dots> \<longleftrightarrow> 2^31 \<le> unat w"
  proof (cases "2^31 \<le> unat w")
    case True
    then have "unat w div 2^31 = 1" using lt by simp
    with True show ?thesis by simp
  next
    case False
    then have "unat w div 2^31 = 0" by simp
    with False show ?thesis by simp
  qed
  finally show ?thesis .
qed

lemma unat_not: "unat (NOT (w::uint)) = 2^32 - 1 - unat w"
proof -
  have "NOT w = -1 - w" by (simp add: not_eq_complement)
  moreover have "unat ((-1::uint) - w) = unat (-1::uint) - unat w"
    by (rule unat_sub) simp
  moreover have "unat (-1::uint) = 2^32 - 1"
    by (simp add: unsigned_minus_1_eq_mask mask_eq_exp_minus_1)
  ultimately show ?thesis by simp
qed

lemma unat_or: "\<not> bit (w::uint) 31 \<Longrightarrow> unat (w OR 0x80000000) = unat w + 2^31"
proof -
  assume nb: "\<not> bit w 31"
  have e: "(0x80000000::uint) = 2^31" by simp
  have "w + 2^31 = w OR 2^31"
  proof (rule disjunctive_add)
    fix n show "\<not> bit w n \<or> \<not> bit (2^31::uint) n"
      unfolding bit_exp_iff using nb by auto
  qed
  moreover have "unat (w + 2^31) = unat w + unat (2^31 :: uint)"
    using nb by (subst unat_add_lem [symmetric]) (simp add: bit31)
  ultimately show ?thesis unfolding e by simp
qed



lemma magnitude_lower: "0 < k div 2^23 \<Longrightarrow> 2 ^ 23 * 2 ^ (k div 2 ^ 23 - 1) \<le> magnitude k"
  by (simp add: magnitude_def)

lemma magnitude_upper: "magnitude k < 2 ^ 23 * 2 ^ (k div 2 ^ 23)"
proof (cases "k div 2^23 = 0")
  case True
  then show ?thesis by (simp add: magnitude_def)
next
  case False
  then obtain e where e: "k div 2^23 = Suc e" by (cases "k div 2^23") auto
  have "(2 ^ 23 + k mod 2 ^ 23) * 2 ^ e < (2^23 + 2^23) * (2::nat) ^ e"
    by (rule mult_strict_right_mono) simp_all
  then show ?thesis using e by (simp add: magnitude_def)
qed

lemma magnitude_strict_mono:
  assumes "k1 < k2" shows "magnitude k1 < magnitude k2"
proof (cases "k1 div 2^23 = k2 div 2^23")
  case True
  define d :: nat where "d = 2 ^ 23"
  have "k1 div d = k2 div d" using True by (simp add: d_def)
  then have "k2 div d * d + k1 mod d = k1" by (metis div_mult_mod_eq)
  moreover have "k2 div d * d + k2 mod d = k2" by (rule div_mult_mod_eq)
  ultimately have "k1 mod d < k2 mod d" using assms by linarith
  then have "k1 mod 2^23 < k2 mod 2^23" by (simp add: d_def)
  then show ?thesis using True assms by (simp add: magnitude_def)
next
  case False
  have "k1 div 2^23 \<le> k2 div 2^23" using assms by (simp add: div_le_mono)
  with False have lt: "k1 div 2^23 < k2 div 2^23" by simp
  then have "k1 div 2^23 \<le> k2 div 2^23 - 1" by simp
  then have "(2::nat) ^ (k1 div 2^23) \<le> 2 ^ (k2 div 2^23 - 1)"
    by (rule power_increasing) simp
  then have "2 ^ 23 * (2::nat) ^ (k1 div 2^23) \<le> 2 ^ 23 * 2 ^ (k2 div 2^23 - 1)" by simp
  moreover have "2 ^ 23 * 2 ^ (k2 div 2^23 - 1) \<le> magnitude k2"
    using lt by (intro magnitude_lower) simp
  ultimately show ?thesis using magnitude_upper [of k1] by linarith
qed

lemma magnitude_zero_iff: "magnitude k = 0 \<longleftrightarrow> k = 0"
  using magnitude_strict_mono [of 0 k] by (cases "k = 0") (simp_all add: magnitude_def)

lemma unat_fraction: "float_fraction w = unat w mod 2 ^ 23"
proof -
  have "(0x7FFFFF :: uint) = mask 23" by (simp add: mask_eq_exp_minus_1)
  then have "w AND 0x7FFFFF = take_bit 23 w" by (simp only: take_bit_eq_mask)
  then have "float_fraction w = unat (take_bit 23 w)" by (simp only: float_fraction_def)
  also have "\<dots> = take_bit 23 (unat w)" by (rule unsigned_take_bit_eq)
  finally show ?thesis by (simp only: take_bit_eq_mod)
qed

lemma unat_exponent: "float_exponent w = (unat w div 2 ^ 23) mod 2 ^ 8"
proof -
  have "(0xFF :: uint) = mask 8" by (simp add: mask_eq_exp_minus_1)
  then have "drop_bit 23 w AND 0xFF = take_bit 8 (drop_bit 23 w)" by (simp only: take_bit_eq_mask)
  then have "float_exponent w = unat (take_bit 8 (drop_bit 23 w))" by (simp only: float_exponent_def)
  also have "\<dots> = take_bit 8 (unat (drop_bit 23 w))" by (rule unsigned_take_bit_eq)
  also have "\<dots> = take_bit 8 (drop_bit 23 (unat w))" by (simp only: unat_drop_bit_eq)
  finally show ?thesis by (simp only: take_bit_eq_mod drop_bit_eq_div)
qed


lemma unat_low31: "unat w = (if bit w 31 then 2 ^ 31 + low31 w else low31 w)"
proof -
  have lt: "unat w < 2^32" using unsigned_less [of w] by simp
  show ?thesis
  proof (cases "bit w 31")
    case True
    then have "2^31 \<le> unat w" by (simp add: bit31)
    then have "unat w mod 2^31 = unat w - 2^31" using lt
      by (simp add: mod_if)
    then show ?thesis using True \<open>2^31 \<le> unat w\<close> by (simp add: low31_def)
  next
    case False
    then have "unat w < 2^31" by (simp add: bit31)
    then show ?thesis using False by (simp add: low31_def)
  qed
qed

lemma low31_less: "low31 w < 2 ^ 31"
  by (simp add: low31_def)

lemma unat_encode:
  "unat (encodeFloatIntoInteger w) =
     (if bit w 31 then 2 ^ 31 - 1 - low31 w else 2 ^ 31 + low31 w)"
proof (cases "bit w 31")
  case True
  then have "unat (encodeFloatIntoInteger w) = 2^32 - 1 - unat w"
    by (simp add: encodeFloatIntoInteger_def sign_test unat_not)
  then show ?thesis using True unat_low31 [of w] by simp
next
  case False
  then have "unat (encodeFloatIntoInteger w) = unat w + 2^31"
    by (simp add: encodeFloatIntoInteger_def sign_test unat_or)
  then show ?thesis using False unat_low31 [of w] by simp
qed

lemma low31_split: "low31 w = 2 ^ 23 * (unat w div 2 ^ 23 mod 2 ^ 8) + unat w mod 2 ^ 23"
proof -
  have "unat w mod (2 ^ 23 * 2 ^ 8) = 2 ^ 23 * (unat w div 2 ^ 23 mod 2 ^ 8) + unat w mod 2 ^ 23"
    by (rule mod_mult2_eq)
  then show ?thesis by (simp add: low31_def)
qed

lemma exponent_low31: "float_exponent w = low31 w div 2 ^ 23"
  unfolding unat_exponent low31_split by simp

lemma fraction_low31: "float_fraction w = low31 w mod 2 ^ 23"
  unfolding unat_fraction low31_split by simp

lemma magnitude_low31:
  "magnitude (low31 w) =
     (if float_exponent w = 0 then float_fraction w
      else (2 ^ 23 + float_fraction w) * 2 ^ (float_exponent w - 1))"
  unfolding magnitude_def exponent_low31 fraction_low31 by (rule refl)

lemma float_val_magnitude:
  "float_val w = (if bit w 31 then - 1 else 1) * real (magnitude (low31 w)) / 2 ^ 149"
proof (cases "float_exponent w")
  case 0
  then show ?thesis
    unfolding magnitude_low31 by (simp add: float_val_def float_sign_def)
next
  case (Suc e)
  have "(1 + real (float_fraction w) / 2 ^ 23) * (2 ^ Suc e / 2 ^ 127)
        = real ((2 ^ 23 + float_fraction w) * 2 ^ e) / 2 ^ 149"
    by (simp add: field_simps)
  then show ?thesis using Suc
    unfolding magnitude_low31 by (simp add: float_val_def float_sign_def)
qed

lemma float_val_less_iff:
  "float_val a < float_val b \<longleftrightarrow>
     (if bit a 31 then - 1 else 1) * real (magnitude (low31 a))
     < (if bit b 31 then - 1 else 1) * real (magnitude (low31 b))"
  unfolding float_val_magnitude by (simp add: divide_less_cancel)

lemma magnitude_less_iff: "magnitude k1 < magnitude k2 \<longleftrightarrow> k1 < k2"
  by (metis magnitude_strict_mono linorder_neqE_nat order_less_asym order_less_irrefl)

lemma low31_zero_iff: "low31 w = 0 \<longleftrightarrow> w = 0 \<or> w = 0x80000000"
proof -
  have "w = 0 \<longleftrightarrow> unat w = 0" by (simp add: unat_eq_0)
  moreover have "w = 0x80000000 \<longleftrightarrow> unat w = 2^31"
    using word_unat_eq_iff [of w "0x80000000"] by simp
  ultimately show ?thesis using unat_low31 [of w] low31_less [of w]
    by (auto split: if_splits)
qed

lemma encode_less_iff:
  "encodeFloatIntoInteger a < encodeFloatIntoInteger b \<longleftrightarrow>
     (if bit a 31 then (if bit b 31 then low31 b < low31 a else True)
      else (if bit b 31 then False else low31 a < low31 b))"
  using low31_less [of a] low31_less [of b]
  unfolding word_less_nat_alt unat_encode by (auto split: if_splits)

lemma encode_order_aux:
  assumes "\<not> (a = 0x80000000 \<and> b = 0)"
  shows "float_val a < float_val b \<longleftrightarrow> encodeFloatIntoInteger a < encodeFloatIntoInteger b"
proof (cases "bit a 31")
  case a: True
  show ?thesis
  proof (cases "bit b 31")
    case True
    with a show ?thesis
      unfolding float_val_less_iff encode_less_iff by (simp add: magnitude_less_iff)
  next
    case False
    have "b = 0x80000000 \<longleftrightarrow> False" using False by auto
    moreover have "a = 0 \<longleftrightarrow> False" using a by auto
    ultimately have "0 < magnitude (low31 a) \<or> 0 < magnitude (low31 b)"
      using assms low31_zero_iff [of a] low31_zero_iff [of b]
        magnitude_zero_iff [of "low31 a"] magnitude_zero_iff [of "low31 b"] by auto
    then have "- real (magnitude (low31 a)) < real (magnitude (low31 b))" by auto
    with a False show ?thesis
      unfolding float_val_less_iff encode_less_iff by simp
  qed
next
  case a: False
  show ?thesis
  proof (cases "bit b 31")
    case True
    have "0 \<le> real (magnitude (low31 a))" "0 \<le> real (magnitude (low31 b))"
      by simp_all
    then have "\<not> real (magnitude (low31 a)) < - real (magnitude (low31 b))"
      by linarith
    with a True show ?thesis
      unfolding float_val_less_iff encode_less_iff by simp
  next
    case False
    with a show ?thesis
      unfolding float_val_less_iff encode_less_iff by (simp add: magnitude_less_iff)
  qed
qed

text \<open>
  Claim C2. \<open>encodeFloatIntoInteger\<close> computes, for every 32-bit pattern, the rule of the
  specification: the complement when the sign bit is set, and otherwise the pattern
  with the sign bit set.
\<close>

theorem encodeFloatIntoInteger_is_encode_spec:
  "encodeFloatIntoInteger number = encode_spec number"
  unfolding encodeFloatIntoInteger_def encode_spec_def Let_def sign_test
  by (rule refl)


text \<open>
  Claim C10. \<open>encodeFloatIntoInteger\<close> is a bijection on 32-bit patterns. It sends the
  pattern of \<open>-0.0\<close> to \<open>0x7FFFFFFF\<close> and the pattern of \<open>+0.0\<close> to \<open>0x80000000\<close>: two
  floats of equal value receive different codes.
\<close>

theorem encodeFloatIntoInteger_bij_signed_zeros:
  "bij encodeFloatIntoInteger \<and>
   encodeFloatIntoInteger 0x80000000 = 0x7FFFFFFF \<and>
   encodeFloatIntoInteger 0 = 0x80000000 \<and>
   float_val 0x80000000 = float_val 0 \<and>
   encodeFloatIntoInteger 0x80000000 \<noteq> encodeFloatIntoInteger 0"
proof -
  have "bij encodeFloatIntoInteger"
    by (rule o_bij [of decodeIntegerIntoFloat]) (auto simp add: decode_encode encode_decode)
  moreover have "encodeFloatIntoInteger 0x80000000 = 0x7FFFFFFF"
    by (simp add: encodeFloatIntoInteger_def)
  moreover have "encodeFloatIntoInteger 0 = 0x80000000"
    by (simp add: encodeFloatIntoInteger_def)
  moreover have "float_val 0x80000000 = float_val 0"
    by (simp add: float_val_def float_exponent_def float_fraction_def)
  ultimately show ?thesis by simp
qed

text \<open>
  Claim C1, as stated: for all finite floats \<open>a\<close> and \<open>b\<close>, \<open>a < b\<close> holds exactly when the
  code of \<open>a\<close> is below the code of \<open>b\<close>, the pair \<open>-0.0\<close>, \<open>+0.0\<close> included. That pair
  refutes it: both are finite, \<open>-0.0 < +0.0\<close> is false, and the code of \<open>-0.0\<close> is below
  the code of \<open>+0.0\<close>.
\<close>

theorem encode_order_signed_zero_counterexample:
  "float_finite 0x80000000 \<and> float_finite 0 \<and>
   \<not> float_less 0x80000000 0 \<and>
   encodeFloatIntoInteger 0x80000000 < encodeFloatIntoInteger 0"
proof -
  have "float_finite 0x80000000" "float_finite 0"
    by (simp_all add: float_finite_def float_exponent_def)
  moreover have "\<not> float_less 0x80000000 0"
    by (simp add: float_less_def float_val_def float_exponent_def float_fraction_def)
  moreover have "encodeFloatIntoInteger 0x80000000 < encodeFloatIntoInteger 0"
    by (simp add: encodeFloatIntoInteger_def)
  ultimately show ?thesis by simp
qed

text \<open>
  Claim C1, amended: for all finite floats \<open>a\<close> and \<open>b\<close> other than the pair \<open>a = -0.0\<close>,
  \<open>b = +0.0\<close>, \<open>a < b\<close> holds exactly when the code of \<open>a\<close> is below the code of \<open>b\<close>
  as unsigned integers; and the encoding is injective on the bit patterns of floats.
\<close>

theorem encode_order_preserving_except_signed_zero:
  assumes "float_finite a" and "float_finite b"
    and "\<not> (a = 0x80000000 \<and> b = 0)"
  shows "(float_less a b \<longleftrightarrow> encodeFloatIntoInteger a < encodeFloatIntoInteger b) \<and>
         (encodeFloatIntoInteger a = encodeFloatIntoInteger b \<longleftrightarrow> a = b)"
  using encode_order_aux [OF assms(3)] encode_inject [of a b]
  by (simp add: float_less_def)

theorem encode_order_preserving_except_signed_zero_witness:
  "float_finite 0xBF800000 \<and> float_finite 0x3F800000 \<and>
   \<not> ((0xBF800000 :: float) = 0x80000000 \<and> (0x3F800000 :: float) = 0) \<and>
   float_less 0xBF800000 0x3F800000 \<and>
   encodeFloatIntoInteger 0xBF800000 < encodeFloatIntoInteger 0x3F800000"
proof -
  have f: "float_finite 0xBF800000" "float_finite 0x3F800000"
    by (simp_all add: float_finite_def float_exponent_def)
  have n: "\<not> ((0xBF800000 :: float) = 0x80000000 \<and> (0x3F800000 :: float) = 0)"
    by simp
  have "encodeFloatIntoInteger 0xBF800000 < encodeFloatIntoInteger 0x3F800000"
    by (simp add: encodeFloatIntoInteger_def)
  then show ?thesis
    using f n encode_order_preserving_except_signed_zero [OF f n] by simp
qed


section \<open>The intersection tests\<close>

lemma intervals_intersect_iff:
  "intervals_intersect lo1 hi1 lo2 hi2 \<longleftrightarrow>
     (\<exists>v. lo1 \<le> v \<and> v \<le> hi1 \<and> lo2 \<le> v \<and> v \<le> hi2)"
proof
  assume "intervals_intersect lo1 hi1 lo2 hi2"
  then have "lo1 \<le> max lo1 lo2 \<and> max lo1 lo2 \<le> hi1 \<and> lo2 \<le> max lo1 lo2 \<and> max lo1 lo2 \<le> hi2"
    by (simp add: intervals_intersect_def)
  then show "\<exists>v. lo1 \<le> v \<and> v \<le> hi1 \<and> lo2 \<le> v \<and> v \<le> hi2" by blast
next
  assume "\<exists>v. lo1 \<le> v \<and> v \<le> hi1 \<and> lo2 \<le> v \<and> v \<le> hi2"
  then show "intervals_intersect lo1 hi1 lo2 hi2"
    by (auto simp add: intervals_intersect_def)
qed

lemma intervals_intersect_wf:
  "lo1 \<le> hi1 \<Longrightarrow> lo2 \<le> hi2 \<Longrightarrow>
     intervals_intersect lo1 hi1 lo2 hi2 \<longleftrightarrow> \<not> (hi2 < lo1 \<or> hi1 < lo2)"
  by (auto simp add: intervals_intersect_def)

lemma index_less_iff_value_less:
  assumes "sorted (map value_ep xs)" and "distinct (map value_ep xs)"
    and "i < length xs" and "j < length xs"
  shows "i < j \<longleftrightarrow> value_ep (xs ! i) < value_ep (xs ! j)"
proof -
  from assms(1,2) have s: "sorted_wrt (<) (map value_ep xs)"
    by (simp add: strict_sorted_iff)
  have less: "value_ep (xs ! m) < value_ep (xs ! n)" if "m < n" "n < length xs" for m n
    using sorted_wrt_nth_less [OF s, of m n] that by simp
  show ?thesis
  proof
    assume "i < j" then show "value_ep (xs ! i) < value_ep (xs ! j)"
      using less assms(4) by simp
  next
    assume v: "value_ep (xs ! i) < value_ep (xs ! j)"
    show "i < j"
    proof (rule ccontr)
      assume "\<not> i < j"
      then consider "i = j" | "j < i" by linarith
      then show False
      proof cases
        case 1 with v show False by simp
      next
        case 2
        then have "value_ep (xs ! j) < value_ep (xs ! i)" using less assms(3) by simp
        with v show False by simp
      qed
    qed
  qed
qed

text \<open>
  Claim C8, as stated: when the array is sorted and the minimum of \<open>box1\<close> is at most the
  minimum of \<open>box2\<close> on the axis, \<open>testIntersect1DSortedAABBs\<close> returns true exactly when the
  closed value intervals of the two boxes intersect. It fails for a \<open>box2\<close> whose minimum
  is above its maximum: \<open>box2\<close> below holds the codes of \<open>+0.0\<close> and \<open>-0.0\<close>, the integer
  form of the float interval \<open>[+0.0, -0.0]\<close>; the test returns true and the interval of
  \<open>box2\<close> is empty.
\<close>

theorem testIntersect1DSortedAABBs_inverted_box2_counterexample:
  "sorted (map value_ep
     [\<lparr>boxID = 0, isMin = True, value_ep = 0x80000000\<rparr>,
      \<lparr>boxID = 0, isMin = False, value_ep = 0x80000001\<rparr>]) \<and>
   box_lo [\<lparr>boxID = 0, isMin = True, value_ep = 0x80000000\<rparr>,
           \<lparr>boxID = 0, isMin = False, value_ep = 0x80000001\<rparr>]
      \<lparr>min_box = (\<lambda>_. 0), max_box = (\<lambda>_. 1), body = 0\<rparr> 0
     \<le> min_int \<lparr>min_int = (\<lambda>_. 0x80000000), max_int = (\<lambda>_. 0x7FFFFFFF)\<rparr> 0 \<and>
   testIntersect1DSortedAABBs
      \<lparr>min_box = (\<lambda>_. 0), max_box = (\<lambda>_. 1), body = 0\<rparr>
      \<lparr>min_int = (\<lambda>_. 0x80000000), max_int = (\<lambda>_. 0x7FFFFFFF)\<rparr>
      [\<lparr>boxID = 0, isMin = True, value_ep = 0x80000000\<rparr>,
       \<lparr>boxID = 0, isMin = False, value_ep = 0x80000001\<rparr>] 0 = Some True \<and>
   \<not> intervals_intersect 0x80000000 0x80000001 0x80000000 0x7FFFFFFF \<and>
   encodeFloatIntoInteger 0 = 0x80000000 \<and>
   encodeFloatIntoInteger 0x80000000 = 0x7FFFFFFF"
  by (simp add: testIntersect1DSortedAABBs_def box_lo_def intervals_intersect_def
      encodeFloatIntoInteger_def)

text \<open>
  Claim C8, amended: when the array is sorted, the minimum of \<open>box1\<close> is at most the minimum
  of \<open>box2\<close> on the axis, and the minimum of \<open>box2\<close> is at most its maximum on the axis, the
  single comparison of \<open>testIntersect1DSortedAABBs\<close> returns true exactly when the closed
  value intervals of the two boxes intersect on the axis.
\<close>

theorem testIntersect1DSortedAABBs_iff_intersect:
  assumes "sorted (map value_ep endPointsArray)"
    and "axis < 3"
    and "indices_in_range endPointsArray box1 axis"
    and "box_lo endPointsArray box1 axis \<le> min_int box2 axis"
    and "min_int box2 axis \<le> max_int box2 axis"
  shows "testIntersect1DSortedAABBs box1 box2 endPointsArray axis =
           Some (intervals_intersect (box_lo endPointsArray box1 axis)
                   (box_hi endPointsArray box1 axis) (min_int box2 axis) (max_int box2 axis))"
  using assms(2-5)
  by (auto simp add: testIntersect1DSortedAABBs_def indices_in_range_def box_hi_def
      intervals_intersect_def)

theorem testIntersect1DSortedAABBs_iff_intersect_witness:
  "testIntersect1DSortedAABBs
      \<lparr>min_box = (\<lambda>_. 0), max_box = (\<lambda>_. 1), body = 0\<rparr>
      \<lparr>min_int = (\<lambda>_. 7), max_int = (\<lambda>_. 9)\<rparr>
      [\<lparr>boxID = 0, isMin = True, value_ep = 2\<rparr>,
       \<lparr>boxID = 0, isMin = False, value_ep = 5\<rparr>] 0 = Some False \<and>
   \<not> intervals_intersect 2 5 7 9"
  using testIntersect1DSortedAABBs_iff_intersect
    [of "[\<lparr>boxID = 0, isMin = True, value_ep = 2\<rparr>,
          \<lparr>boxID = 0, isMin = False, value_ep = 5\<rparr>]" 0
        "\<lparr>min_box = (\<lambda>_. 0), max_box = (\<lambda>_. 1), body = 0\<rparr>"
        "\<lparr>min_int = (\<lambda>_. 7), max_int = (\<lambda>_. 9)\<rparr>"]
  by (simp add: indices_in_range_def box_lo_def box_hi_def intervals_intersect_def)

text \<open>
  Claim C9, as stated: \<open>testIntersect2D\<close> compares end-point indices, and when every axis
  array is sorted with distinct values it returns true exactly when the value intervals
  of the two boxes intersect on both axes. It fails for a box whose minimum end-point
  lies after its maximum end-point in the array. Below, on each axis, \<open>box1\<close> has its
  minimum at index 0 and its maximum at index 3, \<open>box2\<close> has its maximum at index 1
  (the code of \<open>-0.0\<close>) and its minimum at index 2 (the code of \<open>+0.0\<close>): the test returns
  true and the value interval of \<open>box2\<close> is empty.
\<close>

theorem testIntersect2D_inverted_box_counterexample:
  "sorted (map value_ep
     [\<lparr>boxID = 0, isMin = True, value_ep = 0x407FFFFF\<rparr>,
      \<lparr>boxID = 1, isMin = False, value_ep = 0x7FFFFFFF\<rparr>,
      \<lparr>boxID = 1, isMin = True, value_ep = 0x80000000\<rparr>,
      \<lparr>boxID = 0, isMin = False, value_ep = 0xBF800000\<rparr>]) \<and>
   distinct (map value_ep
     [\<lparr>boxID = 0, isMin = True, value_ep = 0x407FFFFF\<rparr>,
      \<lparr>boxID = 1, isMin = False, value_ep = 0x7FFFFFFF\<rparr>,
      \<lparr>boxID = 1, isMin = True, value_ep = 0x80000000\<rparr>,
      \<lparr>boxID = 0, isMin = False, value_ep = 0xBF800000\<rparr>]) \<and>
   testIntersect2D
      \<lparr>min_box = (\<lambda>_. 0), max_box = (\<lambda>_. 3), body = 0\<rparr>
      \<lparr>min_box = (\<lambda>_. 2), max_box = (\<lambda>_. 1), body = 1\<rparr> 0 1 = Some True \<and>
   \<not> intervals_intersect 0x407FFFFF 0xBF800000 0x80000000 0x7FFFFFFF"
  by (simp add: testIntersect2D_def intervals_intersect_def)

text \<open>
  Claim C9, amended: \<open>testIntersect2D\<close> compares end-point indices; when, on both axes,
  the end-point array is sorted with distinct values, the indices of both boxes lie
  inside the array and the minimum value of each box is at most its maximum value, it
  returns true exactly when the value intervals of the two boxes intersect on \<open>axis1\<close>
  and on \<open>axis2\<close>.
\<close>

theorem testIntersect2D_iff_intersect:
  assumes "axis1 < 3" and "axis2 < 3"
    and "\<forall>axis \<in> {axis1, axis2}.
           sorted (map value_ep (endPoints axis)) \<and>
           distinct (map value_ep (endPoints axis)) \<and>
           indices_in_range (endPoints axis) box1 axis \<and>
           indices_in_range (endPoints axis) box2 axis \<and>
           box_lo (endPoints axis) box1 axis \<le> box_hi (endPoints axis) box1 axis \<and>
           box_lo (endPoints axis) box2 axis \<le> box_hi (endPoints axis) box2 axis"
  shows "testIntersect2D box1 box2 axis1 axis2 =
           Some (intervals_intersect
                   (box_lo (endPoints axis1) box1 axis1) (box_hi (endPoints axis1) box1 axis1)
                   (box_lo (endPoints axis1) box2 axis1) (box_hi (endPoints axis1) box2 axis1) \<and>
                 intervals_intersect
                   (box_lo (endPoints axis2) box1 axis2) (box_hi (endPoints axis2) box1 axis2)
                   (box_lo (endPoints axis2) box2 axis2) (box_hi (endPoints axis2) box2 axis2))"
proof -
  have one: "intervals_intersect
       (box_lo (endPoints axis) box1 axis) (box_hi (endPoints axis) box1 axis)
       (box_lo (endPoints axis) box2 axis) (box_hi (endPoints axis) box2 axis)
     \<longleftrightarrow> \<not> (max_box box2 axis < min_box box1 axis \<or> max_box box1 axis < min_box box2 axis)"
    if "axis \<in> {axis1, axis2}" for axis
  proof -
    from assms(3) that have s: "sorted (map value_ep (endPoints axis))"
      and d: "distinct (map value_ep (endPoints axis))"
      and r1: "indices_in_range (endPoints axis) box1 axis"
      and r2: "indices_in_range (endPoints axis) box2 axis"
      and w1: "box_lo (endPoints axis) box1 axis \<le> box_hi (endPoints axis) box1 axis"
      and w2: "box_lo (endPoints axis) box2 axis \<le> box_hi (endPoints axis) box2 axis"
      by blast+
    have a: "max_box box2 axis < min_box box1 axis \<longleftrightarrow>
        box_hi (endPoints axis) box2 axis < box_lo (endPoints axis) box1 axis"
      unfolding box_lo_def box_hi_def
      using r1 r2 by (intro index_less_iff_value_less [OF s d]) (simp_all add: indices_in_range_def)
    have b: "max_box box1 axis < min_box box2 axis \<longleftrightarrow>
        box_hi (endPoints axis) box1 axis < box_lo (endPoints axis) box2 axis"
      unfolding box_lo_def box_hi_def
      using r1 r2 by (intro index_less_iff_value_less [OF s d]) (simp_all add: indices_in_range_def)
    show ?thesis
      unfolding intervals_intersect_wf [OF w1 w2] a b by (rule refl)
  qed
  have "testIntersect2D box1 box2 axis1 axis2 =
      Some (\<not> (max_box box2 axis1 < min_box box1 axis1 \<or> max_box box1 axis1 < min_box box2 axis1) \<and>
            \<not> (max_box box2 axis2 < min_box box1 axis2 \<or> max_box box1 axis2 < min_box box2 axis2))"
    using assms(1,2) by (auto simp add: testIntersect2D_def)
  then show ?thesis using one [of axis1] one [of axis2] by simp
qed

theorem testIntersect2D_iff_intersect_witness:
  "testIntersect2D
      \<lparr>min_box = (\<lambda>_. 0), max_box = (\<lambda>_. 2), body = 0\<rparr>
      \<lparr>min_box = (\<lambda>_. 1), max_box = (\<lambda>_. 3), body = 1\<rparr> 0 1 = Some True \<and>
   intervals_intersect 1 3 2 4"
proof -
  let ?E = "\<lambda>_::nat. [\<lparr>boxID = 0, isMin = True, value_ep = 1\<rparr>,
      \<lparr>boxID = 1, isMin = True, value_ep = 2\<rparr>,
      \<lparr>boxID = 0, isMin = False, value_ep = 3\<rparr>,
      \<lparr>boxID = 1, isMin = False, value_ep = 4\<rparr>]"
  let ?b1 = "\<lparr>min_box = (\<lambda>_. 0), max_box = (\<lambda>_. 2), body = 0\<rparr>"
  let ?b2 = "\<lparr>min_box = (\<lambda>_. 1), max_box = (\<lambda>_. 3), body = 1\<rparr>"
  have h: "\<forall>axis \<in> {0, 1}.
           sorted (map value_ep (?E axis)) \<and>
           distinct (map value_ep (?E axis)) \<and>
           indices_in_range (?E axis) ?b1 axis \<and>
           indices_in_range (?E axis) ?b2 axis \<and>
           box_lo (?E axis) ?b1 axis \<le> box_hi (?E axis) ?b1 axis \<and>
           box_lo (?E axis) ?b2 axis \<le> box_hi (?E axis) ?b2 axis"
    by (simp add: indices_in_range_def box_lo_def box_hi_def)
  have "(0::nat) < 3" "(1::nat) < 3" by simp_all
  from testIntersect2D_iff_intersect [OF this h]
  show ?thesis by (simp add: box_lo_def box_hi_def intervals_intersect_def)
qed

section \<open>Properties of the structure\<close>

lemma endPointKey_update [simp]: "endPointKey (e\<lparr>value_ep := v\<rparr>) = endPointKey e"
  by (simp add: endPointKey_def)

subsection \<open>Insertion\<close>

lemma set_insertEndPoint [simp]: "set (insertEndPoint e xs) = insert e (set xs)"
  by (induction xs) auto

lemma sorted_insertEndPoint:
  "sorted (map value_ep xs) \<Longrightarrow> sorted (map value_ep (insertEndPoint e xs))"
  by (induction xs) auto

lemma distinct_keys_insertEndPoint:
  "distinct (map endPointKey (insertEndPoint e xs)) \<longleftrightarrow>
     endPointKey e \<notin> endPointKey ` set xs \<and> distinct (map endPointKey xs)"
  by (induction xs) auto

lemma filter_insertEndPoint_out:
  "\<not> P e \<Longrightarrow> filter P (insertEndPoint e xs) = filter P xs"
  by (induction xs) auto

subsection \<open>Reading a value\<close>

lemma endPointValue_member:
  "distinct (map endPointKey xs) \<Longrightarrow> e \<in> set xs \<Longrightarrow>
     endPointValue xs (boxID e) (isMin e) = value_ep e"
proof (induction xs)
  case Nil
  then show ?case by simp
next
  case (Cons x xs)
  show ?case
  proof (cases "boxID x = boxID e \<and> isMin x = isMin e")
    case True
    then have "endPointKey x = endPointKey e" by (simp add: endPointKey_def)
    with Cons.prems have "x = e" by (auto simp add: image_iff)
    then show ?thesis by (simp add: endPointValue_def)
  next
    case False
    with Cons.prems have "e \<in> set xs" by auto
    with Cons False show ?thesis by (auto simp add: endPointValue_def)
  qed
qed

subsection \<open>Moving an end-point\<close>

lemma splitAtEndPoint_Some:
  "splitAtEndPoint P acc xs = Some (ls, e, rs) \<Longrightarrow>
     rev acc @ xs = rev ls @ e # rs \<and> P e"
proof (induction xs arbitrary: acc)
  case Nil
  then show ?case by simp
next
  case (Cons x xs)
  show ?case
  proof (cases "P x")
    case True
    with Cons.prems show ?thesis by simp
  next
    case False
    with Cons.prems have "splitAtEndPoint P (x # acc) xs = Some (ls, e, rs)" by simp
    from Cons.IH [OF this] show ?thesis by simp
  qed
qed

lemma splitAtEndPoint_None:
  "splitAtEndPoint P acc xs = None \<longleftrightarrow> (\<forall>x \<in> set xs. \<not> P x)"
  by (induction xs arbitrary: acc) auto

lemma siftLeft_rest:
  "siftLeft v ls rs p = (ls1, rs1, p1) \<Longrightarrow> rev ls1 @ rs1 = rev ls @ rs"
  by (induction v ls rs p rule: siftLeft.induct) (auto split: if_splits)

lemma siftRight_rest:
  "siftRight v ls rs p = (ls1, rs1, p1) \<Longrightarrow> rev ls1 @ rs1 = rev ls @ rs"
  by (induction v ls rs p rule: siftRight.induct) (auto split: if_splits)

lemma siftLeft_bound:
  "siftLeft v ls rs p = (ls1, rs1, p1) \<Longrightarrow> sorted (map value_ep (rev ls)) \<Longrightarrow>
     \<forall>x \<in> set ls1. value_ep x \<le> v"
proof (induction v ls rs p rule: siftLeft.induct)
  case (1 v rs p)
  then show ?case by simp
next
  case (2 v l ls rs p)
  show ?case
  proof (cases "v < value_ep l")
    case True
    with 2 show ?thesis by (simp add: sorted_append)
  next
    case False
    then have le: "value_ep l \<le> v" by (simp add: not_less)
    from False 2(2) have eq: "ls1 = l # ls" by simp
    from 2(3) have "\<forall>x \<in> set ls. value_ep x \<le> value_ep l"
      by (simp add: sorted_append)
    with le have "\<forall>x \<in> set ls. value_ep x \<le> v" by (meson order_trans)
    with le eq show ?thesis by simp
  qed
qed

lemma siftRight_bound:
  "siftRight v ls rs p = (ls1, rs1, p1) \<Longrightarrow> sorted (map value_ep rs) \<Longrightarrow>
     \<forall>x \<in> set ls. value_ep x \<le> v \<Longrightarrow>
     (\<forall>x \<in> set ls1. value_ep x \<le> v) \<and> (\<forall>y \<in> set rs1. v \<le> value_ep y)"
proof (induction v ls rs p rule: siftRight.induct)
  case (1 v ls p)
  then show ?case by simp
next
  case (2 v ls r rs p)
  show ?case
  proof (cases "value_ep r < v")
    case True
    with 2 show ?thesis by simp
  next
    case False
    then have le: "v \<le> value_ep r" by (simp add: not_less)
    from False 2(2) have eq: "ls1 = ls" "rs1 = r # rs" by simp_all
    from 2(3) have "\<forall>y \<in> set rs. value_ep r \<le> value_ep y" by simp
    with le have "\<forall>y \<in> set rs. v \<le> value_ep y" by (meson order_trans)
    with le eq 2(4) show ?thesis by simp
  qed
qed

lemma sorted_around:
  "sorted (map value_ep (A @ B)) \<Longrightarrow> \<forall>x \<in> set A. value_ep x \<le> value_ep e \<Longrightarrow>
     \<forall>y \<in> set B. value_ep e \<le> value_ep y \<Longrightarrow> sorted (map value_ep (A @ e # B))"
  by (auto simp add: sorted_append)

lemma sorted_remove_middle:
  "sorted (map value_ep (A @ e # B)) \<Longrightarrow> sorted (map value_ep (A @ B))"
  by (auto simp add: sorted_append)

lemma siftLeft_passed:
  "siftLeft v ls rs p = (ls1, rs1, p1) \<Longrightarrow>
     \<exists>q. ls = q @ ls1 \<and> rs1 = rev q @ rs \<and> p1 = p @ q \<and> (\<forall>x \<in> set q. v < value_ep x)"
proof (induction v ls rs p rule: siftLeft.induct)
  case (1 v rs p)
  then show ?case by simp
next
  case (2 v l ls rs p)
  show ?case
  proof (cases "v < value_ep l")
    case True
    with 2(2) have "siftLeft v ls (l # rs) (p @ [l]) = (ls1, rs1, p1)" by simp
    from 2(1) [OF True this] obtain q where
      q: "ls = q @ ls1" "rs1 = rev q @ l # rs" "p1 = (p @ [l]) @ q" "\<forall>x \<in> set q. v < value_ep x"
      by blast
    with True have "l # ls = (l # q) @ ls1 \<and> rs1 = rev (l # q) @ rs \<and> p1 = p @ (l # q) \<and>
        (\<forall>x \<in> set (l # q). v < value_ep x)" by simp
    then show ?thesis by blast
  next
    case False
    with 2(2) show ?thesis by simp
  qed
qed

lemma siftRight_passed:
  "siftRight v ls rs p = (ls1, rs1, p1) \<Longrightarrow>
     \<exists>q. rs = q @ rs1 \<and> ls1 = rev q @ ls \<and> p1 = p @ q \<and> (\<forall>x \<in> set q. value_ep x < v)"
proof (induction v ls rs p rule: siftRight.induct)
  case (1 v ls p)
  then show ?case by simp
next
  case (2 v ls r rs p)
  show ?case
  proof (cases "value_ep r < v")
    case True
    with 2(2) have "siftRight v (r # ls) rs (p @ [r]) = (ls1, rs1, p1)" by simp
    from 2(1) [OF True this] obtain q where
      q: "rs = q @ rs1" "ls1 = rev q @ r # ls" "p1 = (p @ [r]) @ q" "\<forall>x \<in> set q. value_ep x < v"
      by blast
    with True have "r # rs = (r # q) @ rs1 \<and> ls1 = rev (r # q) @ ls \<and> p1 = p @ (r # q) \<and>
        (\<forall>x \<in> set (r # q). value_ep x < v)" by simp
    then show ?thesis by blast
  next
    case False
    with 2(2) show ?thesis by simp
  qed
qed

text \<open>The shape of the result of a move.\<close>

lemma moveEndPoint_shape:
  assumes "splitAtEndPoint (\<lambda>e. boxID e = b \<and> isMin e = m) [] xs = Some (ls, e, rs)"
  shows "\<exists>A B passed. rev ls @ rs = A @ B \<and>
           moveEndPoint b m v xs =
             (A @ e\<lparr>value_ep := v\<rparr> # B,
              map boxID (filter (\<lambda>x. isMin x \<noteq> m \<and> boxID x \<noteq> b) passed)) \<and>
           (sorted (map value_ep (rev ls @ rs)) \<longrightarrow>
              (\<forall>x \<in> set A. value_ep x \<le> v) \<and> (\<forall>y \<in> set B. v \<le> value_ep y)) \<and>
           set passed \<subseteq> set ls \<union> set rs"
proof -
  obtain ls1 rs1 p1 where l: "siftLeft v ls rs [] = (ls1, rs1, p1)"
    by (cases "siftLeft v ls rs []") blast
  obtain ls2 rs2 p2 where r: "siftRight v ls1 rs1 p1 = (ls2, rs2, p2)"
    by (cases "siftRight v ls1 rs1 p1") blast
  have rest1: "rev ls1 @ rs1 = rev ls @ rs" by (rule siftLeft_rest [OF l])
  have rest2: "rev ls2 @ rs2 = rev ls1 @ rs1" by (rule siftRight_rest [OF r])
  have mv: "moveEndPoint b m v xs =
      (rev ls2 @ e\<lparr>value_ep := v\<rparr> # rs2,
       map boxID (filter (\<lambda>x. isMin x \<noteq> m \<and> boxID x \<noteq> b) p2))"
    using assms l r by (simp add: moveEndPoint_def)
  have bounds: "(\<forall>x \<in> set (rev ls2). value_ep x \<le> v) \<and> (\<forall>y \<in> set rs2. v \<le> value_ep y)"
    if s: "sorted (map value_ep (rev ls @ rs))"
  proof -
    from s have "sorted (map value_ep (rev ls))" by (simp add: sorted_append)
    from siftLeft_bound [OF l this] have b1: "\<forall>x \<in> set ls1. value_ep x \<le> v" .
    from s rest1 have "sorted (map value_ep (rev ls1 @ rs1))" by simp
    then have "sorted (map value_ep rs1)" by (simp add: sorted_append)
    from siftRight_bound [OF r this b1] show ?thesis by simp
  qed
  from siftLeft_passed [OF l] obtain q1 where
    q1: "ls = q1 @ ls1" "p1 = [] @ q1" by blast
  from siftRight_passed [OF r] obtain q2 where
    q2: "rs1 = q2 @ rs2" "p2 = p1 @ q2" by blast
  have "set (rev ls1 @ rs1) = set (rev ls @ rs)" by (simp only: rest1)
  then have "set rs1 \<subseteq> set ls \<union> set rs" by auto
  with q1 q2 have sub: "set p2 \<subseteq> set ls \<union> set rs" by auto
  have "rev ls @ rs = rev ls2 @ rs2" using rest1 rest2 by simp
  with mv bounds sub show ?thesis by blast
qed

lemma moveEndPoint_cases:
  obtains (absent) "\<forall>x \<in> set xs. \<not> (boxID x = b \<and> isMin x = m)"
      and "moveEndPoint b m v xs = (xs, [])"
  | (present) C e D A B passed where "xs = C @ e # D" and "boxID e = b" and "isMin e = m"
      and "C @ D = A @ B"
      and "moveEndPoint b m v xs =
             (A @ e\<lparr>value_ep := v\<rparr> # B,
              map boxID (filter (\<lambda>x. isMin x \<noteq> m \<and> boxID x \<noteq> b) passed))"
      and "sorted (map value_ep (C @ D)) \<longrightarrow>
              (\<forall>x \<in> set A. value_ep x \<le> v) \<and> (\<forall>y \<in> set B. v \<le> value_ep y)"
      and "set passed \<subseteq> set C \<union> set D"
proof (cases "splitAtEndPoint (\<lambda>e. boxID e = b \<and> isMin e = m) [] xs")
  case None
  then have "\<forall>x \<in> set xs. \<not> (boxID x = b \<and> isMin x = m)"
    by (simp add: splitAtEndPoint_None)
  moreover from None have "moveEndPoint b m v xs = (xs, [])"
    by (simp add: moveEndPoint_def)
  ultimately show ?thesis by (rule absent)
next
  case (Some t)
  then obtain ls e rs where
    sp: "splitAtEndPoint (\<lambda>e. boxID e = b \<and> isMin e = m) [] xs = Some (ls, e, rs)"
    by (cases t) auto
  from splitAtEndPoint_Some [OF sp] have xs: "xs = rev ls @ e # rs"
    and e: "boxID e = b" "isMin e = m" by simp_all
  from moveEndPoint_shape [OF sp, of v] obtain A B passed where
    "rev ls @ rs = A @ B"
    "moveEndPoint b m v xs =
             (A @ e\<lparr>value_ep := v\<rparr> # B,
              map boxID (filter (\<lambda>x. isMin x \<noteq> m \<and> boxID x \<noteq> b) passed))"
    "sorted (map value_ep (rev ls @ rs)) \<longrightarrow>
              (\<forall>x \<in> set A. value_ep x \<le> v) \<and> (\<forall>y \<in> set B. v \<le> value_ep y)"
    "set passed \<subseteq> set ls \<union> set rs"
    by blast
  with xs e show ?thesis by (intro present [of "rev ls" e rs A B passed]) simp_all
qed

lemma sorted_moveEndPoint:
  assumes "sorted (map value_ep xs)"
  shows "sorted (map value_ep (fst (moveEndPoint b m v xs)))"
proof (cases rule: moveEndPoint_cases [of xs b m v])
  case absent
  with assms show ?thesis by simp
next
  case (present C e D A B passed)
  from assms present(1) have "sorted (map value_ep (C @ D))"
    using sorted_remove_middle by blast
  with present(4,6) have "sorted (map value_ep (A @ B))"
    and "\<forall>x \<in> set A. value_ep x \<le> value_ep (e\<lparr>value_ep := v\<rparr>)"
    and "\<forall>y \<in> set B. value_ep (e\<lparr>value_ep := v\<rparr>) \<le> value_ep y"
    by simp_all
  then have "sorted (map value_ep (A @ e\<lparr>value_ep := v\<rparr> # B))"
    by (rule sorted_around)
  with present(5) show ?thesis by simp
qed

lemma set_split_insert: "set (A @ x # B) = insert x (set (A @ B))"
  by auto

lemma distinct_keys_split:
  "distinct (map endPointKey (A @ x # B)) \<longleftrightarrow>
     endPointKey x \<notin> endPointKey ` set (A @ B) \<and> distinct (map endPointKey (A @ B))"
  by auto

lemma keys_moveEndPoint:
  "endPointKey ` set (fst (moveEndPoint b m v xs)) = endPointKey ` set xs \<and>
   (distinct (map endPointKey (fst (moveEndPoint b m v xs))) \<longleftrightarrow>
      distinct (map endPointKey xs))"
proof (cases rule: moveEndPoint_cases [of xs b m v])
  case absent
  then show ?thesis by simp
next
  case (present C e D A B passed)
  have "endPointKey ` set (A @ e\<lparr>value_ep := v\<rparr> # B) = endPointKey ` set (C @ e # D)"
    unfolding set_split_insert present(4) [symmetric] by simp
  moreover have "distinct (map endPointKey (A @ e\<lparr>value_ep := v\<rparr> # B)) \<longleftrightarrow>
      distinct (map endPointKey (C @ e # D))"
    unfolding distinct_keys_split present(4) [symmetric] by simp
  ultimately show ?thesis using present(1,5) by simp
qed

lemma set_moveEndPoint:
  assumes "distinct (map endPointKey xs)"
  shows "set (fst (moveEndPoint b m v xs)) =
           (\<lambda>e. if boxID e = b \<and> isMin e = m then e\<lparr>value_ep := v\<rparr> else e) ` set xs"
proof -
  define f :: "EndPoint \<Rightarrow> EndPoint" where "f = (\<lambda>e. if boxID e = b \<and> isMin e = m then e\<lparr>value_ep := v\<rparr> else e)"
  have fixed: "f ` S = S" if "\<forall>x \<in> S. \<not> (boxID x = b \<and> isMin x = m)" for S
  proof -
    from that have "\<forall>x \<in> S. f x = x" by (auto simp add: f_def)
    then show ?thesis by force
  qed
  have "set (fst (moveEndPoint b m v xs)) = f ` set xs"
  proof (cases rule: moveEndPoint_cases [of xs b m v])
    case absent
    with fixed [of "set xs"] show ?thesis by simp
  next
    case (present C e D A B passed)
    from assms present(1) have "distinct (map endPointKey (C @ e # D))" by simp
    then have "endPointKey e \<notin> endPointKey ` set (C @ D)"
      unfolding distinct_keys_split by (rule conjunct1)
    then have "\<forall>x \<in> set (C @ D). \<not> (boxID x = b \<and> isMin x = m)"
      using present(2,3) by (auto simp add: endPointKey_def image_iff)
    then have "f ` set (C @ D) = set (C @ D)" by (rule fixed)
    moreover have "f e = e\<lparr>value_ep := v\<rparr>" using present(2,3) by (simp add: f_def)
    ultimately have "f ` set (C @ e # D) = insert (e\<lparr>value_ep := v\<rparr>) (set (A @ B))"
      unfolding set_split_insert present(4) [symmetric] by (simp only: image_insert)
    then show ?thesis using present(1,5) by (simp only: fst_conv set_split_insert)
  qed
  then show ?thesis by (simp only: f_def)
qed

lemma crossed_moveEndPoint:
  "set (snd (moveEndPoint b m v xs)) \<subseteq> boxID ` set xs - {b}"
proof (cases rule: moveEndPoint_cases [of xs b m v])
  case absent
  then show ?thesis by simp
next
  case (present C e D A B passed)
  then show ?thesis by auto
qed

subsection \<open>Pairs\<close>

lemma addPair_fields [simp]:
  "mBoxes (addPair a b s) = mBoxes s"
  "mEndPoints (addPair a b s) = mEndPoints s"
  "mFreeBoxIndices (addPair a b s) = mFreeBoxIndices s"
  "mMapBodyToBoxIndex (addPair a b s) = mMapBodyToBoxIndex s"
  by (simp_all add: addPair_def)

lemma removePair_fields [simp]:
  "mBoxes (removePair a b s) = mBoxes s"
  "mEndPoints (removePair a b s) = mEndPoints s"
  "mFreeBoxIndices (removePair a b s) = mFreeBoxIndices s"
  "mMapBodyToBoxIndex (removePair a b s) = mMapBodyToBoxIndex s"
  by (simp_all add: removePair_def)

lemma set_pairs_addPair [simp]:
  "set (mOverlappingPairs (addPair a b s)) = insert (pairKey a b) (set (mOverlappingPairs s))"
  by (auto simp add: addPair_def)

lemma set_pairs_removePair [simp]:
  "set (mOverlappingPairs (removePair a b s)) = set (mOverlappingPairs s) - {pairKey a b}"
  by (auto simp add: removePair_def)

lemma boxAABBInt_addPair [simp]: "boxAABBInt (addPair a b s) c = boxAABBInt s c"
  by (simp add: boxAABBInt_def)

lemma boxAABBInt_removePair [simp]: "boxAABBInt (removePair a b s) c = boxAABBInt s c"
  by (simp add: boxAABBInt_def)

lemma recheckPair_fields [simp]:
  "mBoxes (recheckPair b box c s) = mBoxes s"
  "mEndPoints (recheckPair b box c s) = mEndPoints s"
  "mFreeBoxIndices (recheckPair b box c s) = mFreeBoxIndices s"
  "mMapBodyToBoxIndex (recheckPair b box c s) = mMapBodyToBoxIndex s"
  by (simp_all add: recheckPair_def)

lemma fold_addPair_fields [simp]:
  "mBoxes (fold (\<lambda>c. addPair a (g c)) cs s) = mBoxes s"
  "mEndPoints (fold (\<lambda>c. addPair a (g c)) cs s) = mEndPoints s"
  "mFreeBoxIndices (fold (\<lambda>c. addPair a (g c)) cs s) = mFreeBoxIndices s"
  "mMapBodyToBoxIndex (fold (\<lambda>c. addPair a (g c)) cs s) = mMapBodyToBoxIndex s"
  by (induction cs arbitrary: s; simp)+

lemma fold_recheckPair_fields [simp]:
  "mBoxes (fold (recheckPair b box) cs s) = mBoxes s"
  "mEndPoints (fold (recheckPair b box) cs s) = mEndPoints s"
  "mFreeBoxIndices (fold (recheckPair b box) cs s) = mFreeBoxIndices s"
  "mMapBodyToBoxIndex (fold (recheckPair b box) cs s) = mMapBodyToBoxIndex s"
  by (induction cs arbitrary: s; simp)+

lemma set_pairs_fold_addPair:
  "set (mOverlappingPairs (fold (\<lambda>c. addPair a (g c)) cs s)) =
     set (mOverlappingPairs s) \<union> (\<lambda>c. pairKey a (g c)) ` set cs"
  by (induction cs arbitrary: s) auto

lemma set_pairs_fold_recheckPair:
  "set (mOverlappingPairs (fold (recheckPair b box) cs s)) \<subseteq>
     set (mOverlappingPairs s) \<union> (\<lambda>c. pairKey (mBoxes s ! b) (mBoxes s ! c)) ` set cs"
proof (induction cs arbitrary: s)
  case Nil
  then show ?case by simp
next
  case (Cons c cs)
  have "set (mOverlappingPairs (recheckPair b box c s)) \<subseteq>
      insert (pairKey (mBoxes s ! b) (mBoxes s ! c)) (set (mOverlappingPairs s))"
    by (auto simp add: recheckPair_def)
  with Cons [of "recheckPair b box c s"] show ?case by auto
qed

lemma pairKey_members: "fst (pairKey a b) \<in> {a, b} \<and> snd (pairKey a b) \<in> {a, b}"
  by (auto simp add: pairKey_def min_def max_def)

lemma pairKey_involves: "fst (pairKey a b) = a \<or> snd (pairKey a b) = a"
  by (auto simp add: pairKey_def min_def max_def)

subsection \<open>Updating an axis\<close>

lemma updateAxis_eq:
  "updateAxis b vmin vmax xs =
     (fst (moveEndPoint b False vmax (fst (moveEndPoint b True vmin xs))),
      snd (moveEndPoint b True vmin xs) @
      snd (moveEndPoint b False vmax (fst (moveEndPoint b True vmin xs))))"
  by (simp add: updateAxis_def split: prod.splits)

lemma sorted_updateAxis:
  "sorted (map value_ep xs) \<Longrightarrow> sorted (map value_ep (fst (updateAxis b vmin vmax xs)))"
  by (simp add: updateAxis_eq sorted_moveEndPoint)

lemma keys_updateAxis:
  "endPointKey ` set (fst (updateAxis b vmin vmax xs)) = endPointKey ` set xs \<and>
   (distinct (map endPointKey (fst (updateAxis b vmin vmax xs))) \<longleftrightarrow>
      distinct (map endPointKey xs))"
  by (simp add: updateAxis_eq keys_moveEndPoint)

lemma boxID_image_keys: "boxID ` S = fst ` endPointKey ` S"
  by (force simp add: endPointKey_def image_iff)

lemma crossed_updateAxis:
  "set (snd (updateAxis b vmin vmax xs)) \<subseteq> boxID ` set xs - {b}"
proof -
  have "boxID ` set (fst (moveEndPoint b True vmin xs)) = boxID ` set xs"
    unfolding boxID_image_keys by (simp add: keys_moveEndPoint)
  with crossed_moveEndPoint [of b True vmin xs]
    crossed_moveEndPoint [of b False vmax "fst (moveEndPoint b True vmin xs)"]
  show ?thesis by (simp add: updateAxis_eq)
qed

subsection \<open>What a successful call does to the state\<close>

lemma addObject_Inr:
  assumes "addObject b aabb s = Inr s'"
  shows "mMapBodyToBoxIndex s b = None"
    and "mMapBodyToBoxIndex s' = (mMapBodyToBoxIndex s)(b \<mapsto> newBoxIndex s)"
    and "mEndPoints s' = (\<lambda>axis.
           insertEndPoint \<lparr>boxID = newBoxIndex s, isMin = False,
               value_ep = max_int (AABBInt_of aabb) axis\<rparr>
             (insertEndPoint \<lparr>boxID = newBoxIndex s, isMin = True,
               value_ep = min_int (AABBInt_of aabb) axis\<rparr> (mEndPoints s axis)))"
    and "mBoxes s' = (if mFreeBoxIndices s = [] then mBoxes s @ [b]
                      else (mBoxes s)[newBoxIndex s := b])"
    and "mFreeBoxIndices s' = tl (mFreeBoxIndices s)"
    and "set (mOverlappingPairs s') = set (mOverlappingPairs s) \<union>
           (\<lambda>c. pairKey b (mBoxes s ! c)) `
             set (filter (\<lambda>c. overlap3D (AABBInt_of aabb) (boxAABBInt s c))
                    (map boxID (filter isMin (mEndPoints s 0))))"
proof -
  define ov where "ov = filter (\<lambda>c. overlap3D (AABBInt_of aabb) (boxAABBInt s c))
                    (map boxID (filter isMin (mEndPoints s 0)))"
  define s1 where "s1 = s\<lparr>mBoxes := (if mFreeBoxIndices s = [] then mBoxes s @ [b]
                                 else (mBoxes s)[newBoxIndex s := b]),
                   mFreeBoxIndices := tl (mFreeBoxIndices s),
                   mEndPoints := (\<lambda>axis.
                      insertEndPoint \<lparr>boxID = newBoxIndex s, isMin = False,
                          value_ep = max_int (AABBInt_of aabb) axis\<rparr>
                        (insertEndPoint \<lparr>boxID = newBoxIndex s, isMin = True,
                          value_ep = min_int (AABBInt_of aabb) axis\<rparr>
                           (mEndPoints s axis))),
                   mMapBodyToBoxIndex := (mMapBodyToBoxIndex s)(b \<mapsto> newBoxIndex s)\<rparr>"
  from assms show none: "mMapBodyToBoxIndex s b = None"
    by (simp add: addObject_def split: if_splits)
  with assms have s': "s' = fold (\<lambda>c. addPair b (mBoxes s ! c)) ov s1"
    by (simp add: addObject_def Let_def ov_def s1_def)
  show "mMapBodyToBoxIndex s' = (mMapBodyToBoxIndex s)(b \<mapsto> newBoxIndex s)"
    unfolding s' by (simp add: s1_def)
  show "mEndPoints s' = (\<lambda>axis.
           insertEndPoint \<lparr>boxID = newBoxIndex s, isMin = False,
               value_ep = max_int (AABBInt_of aabb) axis\<rparr>
             (insertEndPoint \<lparr>boxID = newBoxIndex s, isMin = True,
               value_ep = min_int (AABBInt_of aabb) axis\<rparr> (mEndPoints s axis)))"
    unfolding s' by (simp add: s1_def)
  show "mBoxes s' = (if mFreeBoxIndices s = [] then mBoxes s @ [b]
                      else (mBoxes s)[newBoxIndex s := b])"
    unfolding s' by (simp add: s1_def)
  show "mFreeBoxIndices s' = tl (mFreeBoxIndices s)"
    unfolding s' by (simp add: s1_def)
  show "set (mOverlappingPairs s') = set (mOverlappingPairs s) \<union>
           (\<lambda>c. pairKey b (mBoxes s ! c)) `
             set (filter (\<lambda>c. overlap3D (AABBInt_of aabb) (boxAABBInt s c))
                    (map boxID (filter isMin (mEndPoints s 0))))"
    unfolding s' set_pairs_fold_addPair ov_def by (simp add: s1_def)
qed

lemma removeObject_Inr:
  assumes "removeObject b s = Inr s'"
  shows "\<exists>i. mMapBodyToBoxIndex s b = Some i \<and>
     mMapBodyToBoxIndex s' = (mMapBodyToBoxIndex s)(b := None) \<and>
     mEndPoints s' = (\<lambda>axis. filter (\<lambda>e. boxID e \<noteq> i) (mEndPoints s axis)) \<and>
     mBoxes s' = mBoxes s \<and>
     mFreeBoxIndices s' = i # mFreeBoxIndices s \<and>
     mOverlappingPairs s' = filter (\<lambda>p. \<not> (fst p = b \<or> snd p = b)) (mOverlappingPairs s) \<and>
     mNotifications s' = mNotifications s @
        map (\<lambda>p. PairRemoved (fst p) (snd p))
          (filter (\<lambda>p. fst p = b \<or> snd p = b) (mOverlappingPairs s))"
  using assms by (auto simp add: removeObject_def split: option.splits)

lemma updateObject_Inr:
  assumes "updateObject b aabb s = Inr s'"
  shows "\<exists>i. mMapBodyToBoxIndex s b = Some i \<and>
     mMapBodyToBoxIndex s' = mMapBodyToBoxIndex s \<and>
     mEndPoints s' = (\<lambda>axis. fst (updateAxis i (min_int (AABBInt_of aabb) axis)
                                   (max_int (AABBInt_of aabb) axis) (mEndPoints s axis))) \<and>
     mBoxes s' = mBoxes s \<and>
     mFreeBoxIndices s' = mFreeBoxIndices s \<and>
     set (mOverlappingPairs s') \<subseteq> set (mOverlappingPairs s) \<union>
        (\<lambda>c. pairKey (mBoxes s ! i) (mBoxes s ! c)) `
          (\<Union>axis. set (snd (updateAxis i (min_int (AABBInt_of aabb) axis)
                                   (max_int (AABBInt_of aabb) axis) (mEndPoints s axis))))"
proof -
  from assms obtain i where i: "mMapBodyToBoxIndex s b = Some i"
    by (auto simp add: updateObject_def split: option.splits)
  define moved where "moved = (\<lambda>axis. updateAxis i (min_int (AABBInt_of aabb) axis)
                                   (max_int (AABBInt_of aabb) axis) (mEndPoints s axis))"
  define s1 where "s1 = s\<lparr>mEndPoints := (\<lambda>axis. fst (moved axis))\<rparr>"
  from assms i have s': "s' = fold (recheckPair i (AABBInt_of aabb))
                    (snd (moved 0) @ snd (moved 1) @ snd (moved 2)) s1"
    by (simp add: updateObject_def Let_def moved_def s1_def)
  have "set (mOverlappingPairs s') \<subseteq> set (mOverlappingPairs s1) \<union>
        (\<lambda>c. pairKey (mBoxes s1 ! i) (mBoxes s1 ! c)) `
          set (snd (moved 0) @ snd (moved 1) @ snd (moved 2))"
    unfolding s' by (rule set_pairs_fold_recheckPair)
  moreover have "set (snd (moved 0) @ snd (moved 1) @ snd (moved 2)) \<subseteq> (\<Union>axis. set (snd (moved axis)))"
    by auto
  ultimately have "set (mOverlappingPairs s') \<subseteq> set (mOverlappingPairs s) \<union>
        (\<lambda>c. pairKey (mBoxes s ! i) (mBoxes s ! c)) ` (\<Union>axis. set (snd (moved axis)))"
    by (auto simp add: s1_def)
  moreover have "mMapBodyToBoxIndex s' = mMapBodyToBoxIndex s" "mBoxes s' = mBoxes s"
    "mFreeBoxIndices s' = mFreeBoxIndices s" "mEndPoints s' = (\<lambda>axis. fst (moved axis))"
    unfolding s' by (simp_all add: s1_def)
  ultimately show ?thesis using i unfolding moved_def by blast
qed

subsection \<open>The invariant holds initially and is kept by every call\<close>

lemma wellFormed_empty: "wellFormed emptySweepAndPrune"
  by (simp add: wellFormed_def arraysSorted_def markersMatch_def slotsConsistent_def
      pairsTracked_def liveBoxes_def emptySweepAndPrune_def)

lemma live_less_length:
  "slotsConsistent s \<Longrightarrow> i \<in> liveBoxes s \<Longrightarrow> i < length (mBoxes s)"
  by (auto simp add: slotsConsistent_def liveBoxes_def ran_def)

lemma live_body_tracked:
  "slotsConsistent s \<Longrightarrow> i \<in> liveBoxes s \<Longrightarrow> mBoxes s ! i \<in> dom (mMapBodyToBoxIndex s)"
  by (auto simp add: slotsConsistent_def liveBoxes_def ran_def)

lemma newBoxIndex_fresh:
  assumes "slotsConsistent s" shows "newBoxIndex s \<notin> liveBoxes s"
proof (cases "mFreeBoxIndices s")
  case Nil
  then have "newBoxIndex s = length (mBoxes s)" by (simp add: newBoxIndex_def)
  with live_less_length [OF assms, of "newBoxIndex s"] show ?thesis by auto
next
  case (Cons i free)
  then have "newBoxIndex s \<in> set (mFreeBoxIndices s)" by (simp add: newBoxIndex_def)
  with assms show ?thesis by (auto simp add: slotsConsistent_def)
qed

lemma boxIDs_live:
  "markersMatch s \<Longrightarrow> boxID ` set (mEndPoints s axis) \<subseteq> liveBoxes s"
  unfolding boxID_image_keys by (auto simp add: markersMatch_def)

lemma arraysSorted_addObject:
  assumes "addObject b aabb s = Inr s'" and "arraysSorted s"
  shows "arraysSorted s'"
  using assms(2) unfolding arraysSorted_def addObject_Inr(3) [OF assms(1)]
  by (simp add: sorted_insertEndPoint)

lemma liveBoxes_addObject:
  assumes "addObject b aabb s = Inr s'"
  shows "liveBoxes s' = insert (newBoxIndex s) (liveBoxes s)"
  unfolding liveBoxes_def addObject_Inr(2) [OF assms]
  using addObject_Inr(1) [OF assms] by simp

lemma markersMatch_addObject:
  assumes "addObject b aabb s = Inr s'" and "markersMatch s" and "slotsConsistent s"
  shows "markersMatch s'"
proof -
  have fresh: "newBoxIndex s \<notin> liveBoxes s" by (rule newBoxIndex_fresh [OF assms(3)])
  show ?thesis
    unfolding markersMatch_def liveBoxes_addObject [OF assms(1)] addObject_Inr(3) [OF assms(1)]
  proof (intro allI conjI)
    fix axis
    from assms(2) have d: "distinct (map endPointKey (mEndPoints s axis))"
      and k: "endPointKey ` set (mEndPoints s axis) = liveBoxes s \<times> UNIV"
      by (simp_all add: markersMatch_def)
    from fresh k show "distinct (map endPointKey
        (insertEndPoint \<lparr>boxID = newBoxIndex s, isMin = False, value_ep = max_int (AABBInt_of aabb) axis\<rparr>
          (insertEndPoint \<lparr>boxID = newBoxIndex s, isMin = True, value_ep = min_int (AABBInt_of aabb) axis\<rparr>
            (mEndPoints s axis))))"
      using d by (simp add: distinct_keys_insertEndPoint endPointKey_def)
    from k show "endPointKey ` set
        (insertEndPoint \<lparr>boxID = newBoxIndex s, isMin = False, value_ep = max_int (AABBInt_of aabb) axis\<rparr>
          (insertEndPoint \<lparr>boxID = newBoxIndex s, isMin = True, value_ep = min_int (AABBInt_of aabb) axis\<rparr>
            (mEndPoints s axis))) = insert (newBoxIndex s) (liveBoxes s) \<times> UNIV"
      by (auto simp add: endPointKey_def)
  qed
qed

lemma slotsConsistent_addObject:
  assumes "addObject b aabb s = Inr s'" and sc: "slotsConsistent s"
  shows "slotsConsistent s'"
proof -
  let ?n = "newBoxIndex s"
  have fresh: "?n \<notin> liveBoxes s" by (rule newBoxIndex_fresh [OF sc])
  note none = addObject_Inr(1) [OF assms(1)]
  note m' = addObject_Inr(2) [OF assms(1)]
  note boxes' = addObject_Inr(4) [OF assms(1)]
  note free' = addObject_Inr(5) [OF assms(1)]
  from sc have inj: "inj_on (mMapBodyToBoxIndex s) (dom (mMapBodyToBoxIndex s))"
    and ent: "\<And>c i. mMapBodyToBoxIndex s c = Some i \<Longrightarrow> i < length (mBoxes s) \<and> mBoxes s ! i = c"
    and dist: "distinct (mFreeBoxIndices s)"
    and disj: "set (mFreeBoxIndices s) \<inter> liveBoxes s = {}"
    and bound: "\<And>i. i \<in> set (mFreeBoxIndices s) \<Longrightarrow> i < length (mBoxes s)"
    by (auto simp add: slotsConsistent_def)
  have n_cases: "(mFreeBoxIndices s = [] \<and> ?n = length (mBoxes s)) \<or>
      (mFreeBoxIndices s \<noteq> [] \<and> ?n = hd (mFreeBoxIndices s) \<and> ?n < length (mBoxes s))"
    using bound by (cases "mFreeBoxIndices s") (auto simp add: newBoxIndex_def)
  have len: "length (mBoxes s) \<le> length (mBoxes s')" unfolding boxes' by simp
  have "inj_on (mMapBodyToBoxIndex s') (dom (mMapBodyToBoxIndex s'))"
  proof (rule inj_onI)
    fix x y assume x: "x \<in> dom (mMapBodyToBoxIndex s')" and y: "y \<in> dom (mMapBodyToBoxIndex s')"
      and eq: "mMapBodyToBoxIndex s' x = mMapBodyToBoxIndex s' y"
    show "x = y"
    proof (cases "x = b \<or> y = b")
      case True
      with eq fresh show ?thesis unfolding m'
        by (auto simp add: liveBoxes_def ran_def split: if_splits)
    next
      case False
      with x y eq have "x \<in> dom (mMapBodyToBoxIndex s)" "y \<in> dom (mMapBodyToBoxIndex s)"
        "mMapBodyToBoxIndex s x = mMapBodyToBoxIndex s y"
        unfolding m' by auto
      with inj show ?thesis by (auto dest: inj_onD)
    qed
  qed
  moreover have "\<forall>c i. mMapBodyToBoxIndex s' c = Some i \<longrightarrow>
      i < length (mBoxes s') \<and> mBoxes s' ! i = c"
  proof (intro allI impI)
    fix c i assume ci: "mMapBodyToBoxIndex s' c = Some i"
    show "i < length (mBoxes s') \<and> mBoxes s' ! i = c"
    proof (cases "c = b")
      case True
      with ci have "i = ?n" unfolding m' by simp
      with True n_cases show ?thesis unfolding boxes' by auto
    next
      case False
      with ci have old: "mMapBodyToBoxIndex s c = Some i" unfolding m' by simp
      then have "i \<in> liveBoxes s" by (auto simp add: liveBoxes_def ran_def)
      with fresh have "i \<noteq> ?n" by auto
      with ent [OF old] show ?thesis unfolding boxes' by (auto simp add: nth_append)
    qed
  qed
  moreover have "distinct (mFreeBoxIndices s')" unfolding free' using dist by (simp add: distinct_tl)
  moreover have "set (mFreeBoxIndices s') \<inter> liveBoxes s' = {}"
  proof -
    have "?n \<notin> set (tl (mFreeBoxIndices s))"
      using n_cases dist by (cases "mFreeBoxIndices s") auto
    moreover have "set (tl (mFreeBoxIndices s)) \<subseteq> set (mFreeBoxIndices s)"
      by (cases "mFreeBoxIndices s") auto
    ultimately show ?thesis
      unfolding free' liveBoxes_addObject [OF assms(1)] using disj by auto
  qed
  moreover have "\<forall>i \<in> set (mFreeBoxIndices s'). i < length (mBoxes s')"
  proof
    fix i assume "i \<in> set (mFreeBoxIndices s')"
    then have "i \<in> set (mFreeBoxIndices s)"
      unfolding free' by (cases "mFreeBoxIndices s") auto
    with bound len show "i < length (mBoxes s')" by fastforce
  qed
  ultimately show ?thesis unfolding slotsConsistent_def by blast
qed

lemma pairsTracked_addObject:
  assumes "addObject b aabb s = Inr s'" and "pairsTracked s"
    and "markersMatch s" and "slotsConsistent s"
  shows "pairsTracked s'"
  unfolding pairsTracked_def
proof
  fix p assume p: "p \<in> set (mOverlappingPairs s')"
  have dom': "dom (mMapBodyToBoxIndex s') = insert b (dom (mMapBodyToBoxIndex s))"
    unfolding addObject_Inr(2) [OF assms(1)] by simp
  from p consider "p \<in> set (mOverlappingPairs s)"
    | c where "c \<in> boxID ` set (mEndPoints s 0)" "p = pairKey b (mBoxes s ! c)"
    unfolding addObject_Inr(6) [OF assms(1)] by auto
  then show "fst p \<in> dom (mMapBodyToBoxIndex s') \<and> snd p \<in> dom (mMapBodyToBoxIndex s')"
  proof cases
    case 1
    with assms(2) show ?thesis unfolding dom' pairsTracked_def by blast
  next
    case 2
    from 2(1) boxIDs_live [OF assms(3)] have "c \<in> liveBoxes s" by blast
    from live_body_tracked [OF assms(4) this]
    show ?thesis unfolding dom' 2(2) using pairKey_members [of b "mBoxes s ! c"] by auto
  qed
qed

lemma wellFormed_addObject:
  "addObject b aabb s = Inr s' \<Longrightarrow> wellFormed s \<Longrightarrow> wellFormed s'"
  unfolding wellFormed_def
  using arraysSorted_addObject markersMatch_addObject slotsConsistent_addObject
    pairsTracked_addObject by blast

lemma ran_remove_inj:
  assumes "inj_on m (dom m)" and "m a = Some i"
  shows "ran (m(a := None)) = ran m - {i}"
proof
  show "ran (m(a := None)) \<subseteq> ran m - {i}"
  proof
    fix j assume "j \<in> ran (m(a := None))"
    then obtain c where c: "c \<noteq> a" "m c = Some j" by (auto simp add: ran_def split: if_splits)
    have "j \<noteq> i"
    proof
      assume "j = i"
      with c assms(2) have "m c = m a" by simp
      moreover have "c \<in> dom m" "a \<in> dom m" using c assms(2) by auto
      ultimately have "c = a" using assms(1) by (auto dest: inj_onD)
      with c show False by simp
    qed
    with c show "j \<in> ran m - {i}" by (auto simp add: ran_def)
  qed
next
  show "ran m - {i} \<subseteq> ran (m(a := None))"
  proof
    fix j assume "j \<in> ran m - {i}"
    then obtain c where c: "m c = Some j" "j \<noteq> i" by (auto simp add: ran_def)
    with assms(2) have "c \<noteq> a" by auto
    with c have "(m(a := None)) c = Some j" by simp
    then show "j \<in> ran (m(a := None))" by (auto simp add: ran_def simp del: fun_upd_apply)
  qed
qed

lemma fst_endPointKey [simp]: "fst (endPointKey e) = boxID e"
  by (simp add: endPointKey_def)

lemma keys_filter_boxID:
  "endPointKey ` set (filter (\<lambda>e. boxID e \<noteq> i) xs) =
     {k \<in> endPointKey ` set xs. fst k \<noteq> i}"
proof (rule set_eqI)
  fix k
  show "k \<in> endPointKey ` set (filter (\<lambda>e. boxID e \<noteq> i) xs) \<longleftrightarrow>
        k \<in> {k \<in> endPointKey ` set xs. fst k \<noteq> i}"
  proof
    assume "k \<in> endPointKey ` set (filter (\<lambda>e. boxID e \<noteq> i) xs)"
    then obtain e where "e \<in> set xs" "boxID e \<noteq> i" "k = endPointKey e" by auto
    then show "k \<in> {k \<in> endPointKey ` set xs. fst k \<noteq> i}" by simp
  next
    assume "k \<in> {k \<in> endPointKey ` set xs. fst k \<noteq> i}"
    then obtain e where "e \<in> set xs" "k = endPointKey e" "fst k \<noteq> i" by auto
    then have "e \<in> set (filter (\<lambda>e. boxID e \<noteq> i) xs)" by simp
    with \<open>k = endPointKey e\<close> show "k \<in> endPointKey ` set (filter (\<lambda>e. boxID e \<noteq> i) xs)"
      by (rule image_eqI)
  qed
qed

lemma liveBoxes_removeObject:
  assumes "removeObject b s = Inr s'" and "slotsConsistent s"
    and "mMapBodyToBoxIndex s b = Some i"
  shows "liveBoxes s' = liveBoxes s - {i}"
proof -
  from removeObject_Inr [OF assms(1)] have "mMapBodyToBoxIndex s' = (mMapBodyToBoxIndex s)(b := None)"
    by auto
  moreover from assms(2) have "inj_on (mMapBodyToBoxIndex s) (dom (mMapBodyToBoxIndex s))"
    by (simp add: slotsConsistent_def)
  ultimately show ?thesis unfolding liveBoxes_def
    using ran_remove_inj [of "mMapBodyToBoxIndex s" b i] assms(3) by simp
qed

lemma wellFormed_removeObject:
  assumes r: "removeObject b s = Inr s'" and wf: "wellFormed s"
  shows "wellFormed s'"
proof -
  from removeObject_Inr [OF r] obtain i where
    i: "mMapBodyToBoxIndex s b = Some i"
    and m': "mMapBodyToBoxIndex s' = (mMapBodyToBoxIndex s)(b := None)"
    and e': "mEndPoints s' = (\<lambda>axis. filter (\<lambda>e. boxID e \<noteq> i) (mEndPoints s axis))"
    and boxes': "mBoxes s' = mBoxes s"
    and free': "mFreeBoxIndices s' = i # mFreeBoxIndices s"
    and pairs': "mOverlappingPairs s' = filter (\<lambda>p. \<not> (fst p = b \<or> snd p = b)) (mOverlappingPairs s)"
    by blast
  from wf have srt: "arraysSorted s" and mm: "markersMatch s" and sc: "slotsConsistent s"
    and pt: "pairsTracked s" by (simp_all add: wellFormed_def)
  note live' = liveBoxes_removeObject [OF r sc i]
  have ilive: "i \<in> liveBoxes s" using i by (auto simp add: liveBoxes_def ran_def)
  have "arraysSorted s'"
    using srt unfolding arraysSorted_def e' by (simp add: sorted_filter)
  moreover have "markersMatch s'"
    unfolding markersMatch_def live' e'
  proof (intro allI conjI)
    fix axis
    from mm have d: "distinct (map endPointKey (mEndPoints s axis))"
      and k: "endPointKey ` set (mEndPoints s axis) = liveBoxes s \<times> UNIV"
      by (simp_all add: markersMatch_def)
    from d show "distinct (map endPointKey (filter (\<lambda>e. boxID e \<noteq> i) (mEndPoints s axis)))"
      by (rule distinct_map_filter)
    have "endPointKey ` set (filter (\<lambda>e. boxID e \<noteq> i) (mEndPoints s axis))
        = {k \<in> endPointKey ` set (mEndPoints s axis). fst k \<noteq> i}"
      by (rule keys_filter_boxID)
    also have "\<dots> = (liveBoxes s - {i}) \<times> UNIV" unfolding k by auto
    finally show "endPointKey ` set (filter (\<lambda>e. boxID e \<noteq> i) (mEndPoints s axis))
        = (liveBoxes s - {i}) \<times> UNIV" .
  qed
  moreover have "slotsConsistent s'"
  proof -
    from sc have inj: "inj_on (mMapBodyToBoxIndex s) (dom (mMapBodyToBoxIndex s))"
      and ent: "\<And>c j. mMapBodyToBoxIndex s c = Some j \<Longrightarrow> j < length (mBoxes s) \<and> mBoxes s ! j = c"
      and dist: "distinct (mFreeBoxIndices s)"
      and disj: "set (mFreeBoxIndices s) \<inter> liveBoxes s = {}"
      and bound: "\<And>j. j \<in> set (mFreeBoxIndices s) \<Longrightarrow> j < length (mBoxes s)"
      by (auto simp add: slotsConsistent_def)
    have "inj_on (mMapBodyToBoxIndex s') (dom (mMapBodyToBoxIndex s'))"
    proof (rule inj_onI)
      fix x y assume "x \<in> dom (mMapBodyToBoxIndex s')" "y \<in> dom (mMapBodyToBoxIndex s')"
        "mMapBodyToBoxIndex s' x = mMapBodyToBoxIndex s' y"
      then have "x \<in> dom (mMapBodyToBoxIndex s)" "y \<in> dom (mMapBodyToBoxIndex s)"
        "mMapBodyToBoxIndex s x = mMapBodyToBoxIndex s y"
        unfolding m' by (auto split: if_splits)
      with inj show "x = y" by (auto dest: inj_onD)
    qed
    moreover have "\<forall>c j. mMapBodyToBoxIndex s' c = Some j \<longrightarrow>
        j < length (mBoxes s') \<and> mBoxes s' ! j = c"
      unfolding m' boxes' using ent by (auto split: if_splits)
    moreover have "distinct (mFreeBoxIndices s')"
      unfolding free' using dist disj ilive by auto
    moreover have "set (mFreeBoxIndices s') \<inter> liveBoxes s' = {}"
      unfolding free' live' using disj by auto
    moreover have "\<forall>j \<in> set (mFreeBoxIndices s'). j < length (mBoxes s')"
      unfolding free' boxes' using bound ent [OF i] by auto
    ultimately show ?thesis unfolding slotsConsistent_def by blast
  qed
  moreover have "pairsTracked s'"
    using pt unfolding pairsTracked_def pairs' m' by auto
  ultimately show ?thesis by (simp add: wellFormed_def)
qed

lemma wellFormed_updateObject:
  assumes u: "updateObject b aabb s = Inr s'" and wf: "wellFormed s"
  shows "wellFormed s'"
proof -
  from updateObject_Inr [OF u] obtain i where
    i: "mMapBodyToBoxIndex s b = Some i"
    and m': "mMapBodyToBoxIndex s' = mMapBodyToBoxIndex s"
    and e': "mEndPoints s' = (\<lambda>axis. fst (updateAxis i (min_int (AABBInt_of aabb) axis)
                                   (max_int (AABBInt_of aabb) axis) (mEndPoints s axis)))"
    and boxes': "mBoxes s' = mBoxes s"
    and free': "mFreeBoxIndices s' = mFreeBoxIndices s"
    and pairs': "set (mOverlappingPairs s') \<subseteq> set (mOverlappingPairs s) \<union>
        (\<lambda>c. pairKey (mBoxes s ! i) (mBoxes s ! c)) `
          (\<Union>axis. set (snd (updateAxis i (min_int (AABBInt_of aabb) axis)
                                   (max_int (AABBInt_of aabb) axis) (mEndPoints s axis))))"
    by blast
  from wf have srt: "arraysSorted s" and mm: "markersMatch s" and sc: "slotsConsistent s"
    and pt: "pairsTracked s" by (simp_all add: wellFormed_def)
  have live': "liveBoxes s' = liveBoxes s" by (simp add: liveBoxes_def m')
  have ilive: "i \<in> liveBoxes s" using i by (auto simp add: liveBoxes_def ran_def)
  have "arraysSorted s'"
    using srt unfolding arraysSorted_def e' by (simp add: sorted_updateAxis)
  moreover have "markersMatch s'"
    using mm unfolding markersMatch_def live' e' by (simp add: keys_updateAxis)
  moreover have "slotsConsistent s'"
    using sc unfolding slotsConsistent_def live' m' boxes' free' .
  moreover have "pairsTracked s'"
    unfolding pairsTracked_def m'
  proof
    fix p assume "p \<in> set (mOverlappingPairs s')"
    with pairs' consider "p \<in> set (mOverlappingPairs s)"
      | c axis where "c \<in> set (snd (updateAxis i (min_int (AABBInt_of aabb) axis)
                                   (max_int (AABBInt_of aabb) axis) (mEndPoints s axis)))"
          "p = pairKey (mBoxes s ! i) (mBoxes s ! c)"
      by auto
    then show "fst p \<in> dom (mMapBodyToBoxIndex s) \<and> snd p \<in> dom (mMapBodyToBoxIndex s)"
    proof cases
      case 1
      with pt show ?thesis unfolding pairsTracked_def by blast
    next
      case 2
      from 2(1) crossed_updateAxis have "c \<in> boxID ` set (mEndPoints s axis)" by blast
      with boxIDs_live [OF mm] have "c \<in> liveBoxes s" by blast
      from live_body_tracked [OF sc this] live_body_tracked [OF sc ilive]
      show ?thesis unfolding 2(2)
        using pairKey_members [of "mBoxes s ! i" "mBoxes s ! c"] by auto
    qed
  qed
  ultimately show ?thesis by (simp add: wellFormed_def)
qed

lemma wellFormed_perform:
  "perform x s = Inr s' \<Longrightarrow> wellFormed s \<Longrightarrow> wellFormed s'"
  by (cases x) (auto intro: wellFormed_addObject wellFormed_removeObject wellFormed_updateObject)

lemma wellFormed_run_from:
  "run xs s = Inr s' \<Longrightarrow> wellFormed s \<Longrightarrow> wellFormed s'"
proof (induction xs arbitrary: s)
  case Nil
  then show ?case by simp
next
  case (Cons x xs)
  from Cons.prems(1) obtain s1 where s1: "perform x s = Inr s1" and rest: "run xs s1 = Inr s'"
    by (auto split: sum.splits)
  from wellFormed_perform [OF s1 Cons.prems(2)] have "wellFormed s1" .
  with Cons.IH [OF rest] show ?case by simp
qed

lemma wellFormed_run:
  "run xs emptySweepAndPrune = Inr s \<Longrightarrow> wellFormed s"
  by (rule wellFormed_run_from [OF _ wellFormed_empty])

subsection \<open>Reading values after a change of the array\<close>

lemma find_insertEndPoint_other:
  "\<not> P e \<Longrightarrow> find P (insertEndPoint e xs) = find P xs"
  by (induction xs) auto

lemma find_insertEndPoint_new:
  "P e \<Longrightarrow> \<forall>x \<in> set xs. \<not> P x \<Longrightarrow> find P (insertEndPoint e xs) = Some e"
  by (induction xs) auto

lemma find_filter_implied:
  "(\<And>x. P x \<Longrightarrow> Q x) \<Longrightarrow> find P (filter Q xs) = find P xs"
  by (induction xs) auto

lemma find_split_other:
  "\<not> P x \<Longrightarrow> find P (A @ x # B) = find P (A @ B)"
  by (induction A) auto

lemma find_split_new:
  "P x \<Longrightarrow> \<forall>y \<in> set (A @ B). \<not> P y \<Longrightarrow> find P (A @ x # B) = Some x"
  by (induction A) auto

lemma endPointValue_insertEndPoint:
  assumes "endPointKey e \<notin> endPointKey ` set xs"
  shows "endPointValue (insertEndPoint e xs) j m =
           (if j = boxID e \<and> m = isMin e then value_ep e else endPointValue xs j m)"
proof (cases "j = boxID e \<and> m = isMin e")
  case True
  from assms have "\<forall>x \<in> set xs. \<not> (boxID x = j \<and> isMin x = m)"
    using True by (auto simp add: endPointKey_def image_iff)
  with True have "find (\<lambda>x. boxID x = j \<and> isMin x = m) (insertEndPoint e xs) = Some e"
    by (intro find_insertEndPoint_new) simp_all
  with True show ?thesis by (simp add: endPointValue_def)
next
  case False
  then have "find (\<lambda>x. boxID x = j \<and> isMin x = m) (insertEndPoint e xs) =
      find (\<lambda>x. boxID x = j \<and> isMin x = m) xs"
    by (intro find_insertEndPoint_other) auto
  with False show ?thesis unfolding endPointValue_def by auto
qed

lemma endPointValue_filter:
  "j \<noteq> i \<Longrightarrow> endPointValue (filter (\<lambda>e. boxID e \<noteq> i) xs) j m = endPointValue xs j m"
  unfolding endPointValue_def
  by (subst find_filter_implied) auto

lemma endPointValue_moveEndPoint:
  assumes "distinct (map endPointKey xs)" and "(b, m) \<in> endPointKey ` set xs"
  shows "endPointValue (fst (moveEndPoint b m v xs)) j m' =
           (if j = b \<and> m' = m then v else endPointValue xs j m')"
proof (cases rule: moveEndPoint_cases [of xs b m v])
  case absent
  with assms(2) show ?thesis by (auto simp add: endPointKey_def)
next
  case (present C e D A B passed)
  let ?P = "\<lambda>x. boxID x = j \<and> isMin x = m'"
  from assms(1) present(1) have "distinct (map endPointKey (C @ e # D))" by simp
  then have "endPointKey e \<notin> endPointKey ` set (C @ D)"
    unfolding distinct_keys_split by (rule conjunct1)
  then have others: "\<forall>x \<in> set (C @ D). \<not> (boxID x = b \<and> isMin x = m)"
    using present(2,3) by (auto simp add: endPointKey_def image_iff)
  show ?thesis
  proof (cases "j = b \<and> m' = m")
    case True
    with others present(4) have "\<forall>y \<in> set (A @ B). \<not> ?P y" by simp
    moreover have "?P (e\<lparr>value_ep := v\<rparr>)" using True present(2,3) by simp
    ultimately have "find ?P (A @ e\<lparr>value_ep := v\<rparr> # B) = Some (e\<lparr>value_ep := v\<rparr>)"
      by (rule find_split_new [rotated])
    with True present(5) show ?thesis by (simp add: endPointValue_def)
  next
    case False
    then have n: "\<not> ?P (e\<lparr>value_ep := v\<rparr>)" "\<not> ?P e" using present(2,3) by auto
    have "find ?P (A @ e\<lparr>value_ep := v\<rparr> # B) = find ?P (A @ B)"
      using n(1) by (rule find_split_other [of ?P])
    also have "\<dots> = find ?P (C @ e # D)"
      unfolding present(4) [symmetric] using n(2) by (rule find_split_other [of ?P, symmetric])
    finally show ?thesis using False present(1,5) unfolding endPointValue_def by auto
  qed
qed

lemma endPointValue_updateAxis:
  assumes "distinct (map endPointKey xs)" and "(b, True) \<in> endPointKey ` set xs"
    and "(b, False) \<in> endPointKey ` set xs"
  shows "endPointValue (fst (updateAxis b vmin vmax xs)) j m =
           (if j = b then (if m then vmin else vmax) else endPointValue xs j m)"
proof -
  let ?ys = "fst (moveEndPoint b True vmin xs)"
  have d: "distinct (map endPointKey ?ys)" and k: "(b, False) \<in> endPointKey ` set ?ys"
    using assms(1,3) by (simp_all add: keys_moveEndPoint)
  show ?thesis
    unfolding updateAxis_eq fst_conv
      endPointValue_moveEndPoint [OF d k] endPointValue_moveEndPoint [OF assms(1,2)]
    by auto
qed

lemma properInterval_encode:
  assumes "properInterval lo hi"
  shows "encodeFloatIntoInteger lo \<le> encodeFloatIntoInteger hi"
proof -
  from assms have "\<not> (hi = 0x80000000 \<and> lo = 0)" and "\<not> float_val hi < float_val lo"
    by (auto simp add: properInterval_def float_less_def)
  with encode_order_aux [of hi lo] have "\<not> encodeFloatIntoInteger hi < encodeFloatIntoInteger lo"
    by simp
  then show ?thesis by (simp add: not_less)
qed

lemma properAABB_encode:
  assumes "properAABB aabb" and "axis \<in> {0, 1, 2}"
  shows "min_int (AABBInt_of aabb) axis \<le> max_int (AABBInt_of aabb) axis"
  using assms properInterval_encode
  by (auto simp add: properAABB_def AABBInt_of_def)

lemma minBelowMax_empty: "minBelowMax emptySweepAndPrune"
  by (simp add: minBelowMax_def liveBoxes_def emptySweepAndPrune_def)

lemma minBelowMax_addObject:
  assumes a: "addObject b aabb s = Inr s'" and wf: "wellFormed s"
    and mb: "minBelowMax s" and p: "properAABB aabb"
  shows "minBelowMax s'"
  unfolding minBelowMax_def
proof (intro ballI)
  fix i axis assume i: "i \<in> liveBoxes s'" and ax: "axis \<in> {0::nat, 1, 2}"
  let ?n = "newBoxIndex s"
  from wf have mm: "markersMatch s" and sc: "slotsConsistent s" by (simp_all add: wellFormed_def)
  have fresh: "?n \<notin> liveBoxes s" by (rule newBoxIndex_fresh [OF sc])
  from mm have k: "endPointKey ` set (mEndPoints s axis) = liveBoxes s \<times> UNIV"
    by (simp add: markersMatch_def)
  let ?emin = "\<lparr>boxID = ?n, isMin = True, value_ep = min_int (AABBInt_of aabb) axis\<rparr>"
  let ?emax = "\<lparr>boxID = ?n, isMin = False, value_ep = max_int (AABBInt_of aabb) axis\<rparr>"
  have k1: "endPointKey ?emin \<notin> endPointKey ` set (mEndPoints s axis)"
    using fresh unfolding k by (simp add: endPointKey_def)
  have k2: "endPointKey ?emax \<notin> endPointKey ` set (insertEndPoint ?emin (mEndPoints s axis))"
    using fresh k by (auto simp add: endPointKey_def)
  have v: "endPointValue (mEndPoints s' axis) j m =
      (if j = ?n then (if m then min_int (AABBInt_of aabb) axis else max_int (AABBInt_of aabb) axis)
       else endPointValue (mEndPoints s axis) j m)" for j m
    unfolding addObject_Inr(3) [OF a]
      endPointValue_insertEndPoint [OF k2] endPointValue_insertEndPoint [OF k1]
    by auto
  show "endPointValue (mEndPoints s' axis) i True \<le> endPointValue (mEndPoints s' axis) i False"
  proof (cases "i = ?n")
    case True
    with properAABB_encode [OF p ax] show ?thesis unfolding v by simp
  next
    case False
    with i have "i \<in> liveBoxes s" unfolding liveBoxes_addObject [OF a] by simp
    with mb ax have "endPointValue (mEndPoints s axis) i True \<le> endPointValue (mEndPoints s axis) i False"
      unfolding minBelowMax_def by blast
    with False show ?thesis unfolding v by simp
  qed
qed

lemma minBelowMax_removeObject:
  assumes r: "removeObject b s = Inr s'" and wf: "wellFormed s" and mb: "minBelowMax s"
  shows "minBelowMax s'"
  unfolding minBelowMax_def
proof (intro ballI)
  fix j axis assume j: "j \<in> liveBoxes s'" and ax: "axis \<in> {0::nat, 1, 2}"
  from removeObject_Inr [OF r] obtain i where
    i: "mMapBodyToBoxIndex s b = Some i"
    and e': "mEndPoints s' = (\<lambda>axis. filter (\<lambda>e. boxID e \<noteq> i) (mEndPoints s axis))"
    by blast
  from wf have sc: "slotsConsistent s" by (simp add: wellFormed_def)
  from j have jl: "j \<in> liveBoxes s" "j \<noteq> i"
    unfolding liveBoxes_removeObject [OF r sc i] by simp_all
  with mb ax have "endPointValue (mEndPoints s axis) j True \<le> endPointValue (mEndPoints s axis) j False"
    unfolding minBelowMax_def by blast
  with jl show "endPointValue (mEndPoints s' axis) j True \<le> endPointValue (mEndPoints s' axis) j False"
    unfolding e' by (simp add: endPointValue_filter)
qed

lemma minBelowMax_updateObject:
  assumes u: "updateObject b aabb s = Inr s'" and wf: "wellFormed s"
    and mb: "minBelowMax s" and p: "properAABB aabb"
  shows "minBelowMax s'"
  unfolding minBelowMax_def
proof (intro ballI)
  fix j axis assume j: "j \<in> liveBoxes s'" and ax: "axis \<in> {0::nat, 1, 2}"
  from updateObject_Inr [OF u] obtain i where
    i: "mMapBodyToBoxIndex s b = Some i"
    and m': "mMapBodyToBoxIndex s' = mMapBodyToBoxIndex s"
    and e': "mEndPoints s' = (\<lambda>axis. fst (updateAxis i (min_int (AABBInt_of aabb) axis)
                                   (max_int (AABBInt_of aabb) axis) (mEndPoints s axis)))"
    by blast
  from wf have mm: "markersMatch s" by (simp add: wellFormed_def)
  have ilive: "i \<in> liveBoxes s" using i by (auto simp add: liveBoxes_def ran_def)
  from mm have d: "distinct (map endPointKey (mEndPoints s axis))"
    and k: "endPointKey ` set (mEndPoints s axis) = liveBoxes s \<times> UNIV"
    by (simp_all add: markersMatch_def)
  from k ilive have k1: "(i, True) \<in> endPointKey ` set (mEndPoints s axis)"
    and k2: "(i, False) \<in> endPointKey ` set (mEndPoints s axis)" by simp_all
  from j have jl: "j \<in> liveBoxes s" by (simp add: liveBoxes_def m')
  show "endPointValue (mEndPoints s' axis) j True \<le> endPointValue (mEndPoints s' axis) j False"
  proof (cases "j = i")
    case True
    with properAABB_encode [OF p ax] show ?thesis
      unfolding e' endPointValue_updateAxis [OF d k1 k2] by simp
  next
    case False
    from mb ax jl have "endPointValue (mEndPoints s axis) j True \<le> endPointValue (mEndPoints s axis) j False"
      unfolding minBelowMax_def by blast
    with False show ?thesis
      unfolding e' endPointValue_updateAxis [OF d k1 k2] by simp
  qed
qed

lemma minBelowMax_run_from:
  "run xs s = Inr s' \<Longrightarrow> wellFormed s \<Longrightarrow> minBelowMax s \<Longrightarrow> list_all properOperation xs \<Longrightarrow>
     minBelowMax s'"
proof (induction xs arbitrary: s)
  case Nil
  then show ?case by simp
next
  case (Cons x xs)
  from Cons.prems(1) obtain s1 where s1: "perform x s = Inr s1" and rest: "run xs s1 = Inr s'"
    by (auto split: sum.splits)
  have wf1: "wellFormed s1" by (rule wellFormed_perform [OF s1 Cons.prems(2)])
  have "minBelowMax s1"
  proof (cases x)
    case (AddObject b aabb)
    with s1 Cons.prems show ?thesis by (auto intro: minBelowMax_addObject)
  next
    case (RemoveObject b)
    with s1 Cons.prems show ?thesis by (auto intro: minBelowMax_removeObject)
  next
    case (UpdateObject b aabb)
    with s1 Cons.prems show ?thesis by (auto intro: minBelowMax_updateObject)
  qed
  with Cons.IH [OF rest wf1] Cons.prems(4) show ?case by simp
qed

lemma addObject_untracked:
  "mMapBodyToBoxIndex s b = None \<Longrightarrow> \<exists>s'. addObject b aabb s = Inr s'"
  by (simp add: addObject_def Let_def)

lemma filter_id_conv: "(\<forall>x \<in> set xs. P x) \<Longrightarrow> filter P xs = xs"
  by (induction xs) auto

lemma addObject_removeObject:
  assumes wf: "wellFormed s" and none: "mMapBodyToBoxIndex s b = None"
  shows "\<exists>s1 s2. addObject b aabb s = Inr s1 \<and> removeObject b s1 = Inr s2 \<and>
           mEndPoints s2 = mEndPoints s \<and>
           set (mOverlappingPairs s2) = set (mOverlappingPairs s)"
proof -
  from addObject_untracked [OF none] obtain s1 where a: "addObject b aabb s = Inr s1" by blast
  let ?n = "newBoxIndex s"
  note m1 = addObject_Inr(2) [OF a]
  then have tracked: "mMapBodyToBoxIndex s1 b = Some ?n" by simp
  then obtain s2 where r: "removeObject b s1 = Inr s2"
    by (simp add: removeObject_def)
  from removeObject_Inr [OF r] tracked have
    e2: "mEndPoints s2 = (\<lambda>axis. filter (\<lambda>e. boxID e \<noteq> ?n) (mEndPoints s1 axis))"
    and p2: "mOverlappingPairs s2 = filter (\<lambda>p. \<not> (fst p = b \<or> snd p = b)) (mOverlappingPairs s1)"
    by auto
  from wf have mm: "markersMatch s" and sc: "slotsConsistent s" and pt: "pairsTracked s"
    by (simp_all add: wellFormed_def)
  have fresh: "?n \<notin> liveBoxes s" by (rule newBoxIndex_fresh [OF sc])
  have "mEndPoints s2 axis = mEndPoints s axis" for axis
  proof -
    have "\<forall>e \<in> set (mEndPoints s axis). boxID e \<noteq> ?n"
      using boxIDs_live [OF mm, of axis] fresh by auto
    then have "filter (\<lambda>e. boxID e \<noteq> ?n) (mEndPoints s axis) = mEndPoints s axis"
      by (rule filter_id_conv)
    then show ?thesis
      unfolding e2 addObject_Inr(3) [OF a] by (simp add: filter_insertEndPoint_out)
  qed
  then have "mEndPoints s2 = mEndPoints s" by (rule ext)
  moreover have "set (mOverlappingPairs s2) = set (mOverlappingPairs s)"
  proof -
    have old: "\<not> (fst p = b \<or> snd p = b)" if "p \<in> set (mOverlappingPairs s)" for p
      using pt that none unfolding pairsTracked_def by auto
    have new: "fst (pairKey b c) = b \<or> snd (pairKey b c) = b" for c
      by (rule pairKey_involves)
    show ?thesis
      unfolding p2 set_filter addObject_Inr(6) [OF a] using old new by blast
  qed
  ultimately show ?thesis using a r by blast
qed

lemma alternating_snoc:
  "alternating (bs @ [x]) \<longleftrightarrow> alternating bs \<and> (bs = [] \<or> last bs \<noteq> x)"
  by (induction bs rule: alternating.induct) auto

lemma notificationsOf_snoc:
  "notificationsOf p (evs @ [e]) =
     (if pairOf e = p then notificationsOf p evs @ [isAdded e] else notificationsOf p evs)"
  by (simp add: notificationsOf_def)

lemma pairKey_ordered: "fst (pairKey a b) \<le> snd (pairKey a b)"
  by (simp add: pairKey_def)

lemma pairKey_normal: "fst p \<le> snd p \<Longrightarrow> pairKey (fst p) (snd p) = p"
  by (cases p) (simp add: pairKey_def min_def max_def)

lemma pairsLogged_cong:
  "mOverlappingPairs s' = mOverlappingPairs s \<Longrightarrow> mNotifications s' = mNotifications s \<Longrightarrow>
     pairsLogged s' = pairsLogged s"
  by (simp add: pairsLogged_def)

lemma pairsLogged_D:
  assumes "pairsLogged s"
  shows "distinct (mOverlappingPairs s)"
    and "\<And>p. p \<in> set (mOverlappingPairs s) \<Longrightarrow> fst p \<le> snd p"
    and "\<And>p. alternating (notificationsOf p (mNotifications s))"
    and "\<And>p. p \<in> set (mOverlappingPairs s) \<longleftrightarrow> reported p (mNotifications s)"
  using assms unfolding pairsLogged_def by blast+

lemma pairsLogged_I:
  assumes "distinct (mOverlappingPairs s)"
    and "\<And>p. p \<in> set (mOverlappingPairs s) \<Longrightarrow> fst p \<le> snd p"
    and "\<And>p. alternating (notificationsOf p (mNotifications s))"
    and "\<And>p. p \<in> set (mOverlappingPairs s) \<longleftrightarrow> reported p (mNotifications s)"
  shows "pairsLogged s"
  using assms unfolding pairsLogged_def by blast

lemma reported_snoc:
  "reported p (evs @ [e]) = (if pairOf e = p then isAdded e else reported p evs)"
  by (simp add: reported_def notificationsOf_snoc)

lemma alternating_notifications_snoc:
  "alternating (notificationsOf p (evs @ [e])) \<longleftrightarrow>
     alternating (notificationsOf p evs) \<and>
     (pairOf e = p \<longrightarrow> (reported p evs \<longleftrightarrow> \<not> isAdded e) \<or> notificationsOf p evs = [])"
  unfolding notificationsOf_snoc reported_def
  by (cases "pairOf e = p") (auto simp add: alternating_snoc)

lemma pairsLogged_snoc_added:
  assumes pl: "pairsLogged s" and new: "k \<notin> set (mOverlappingPairs s)"
    and k: "pairOf e = k" "isAdded e" "fst k \<le> snd k"
    and s': "mOverlappingPairs s' = k # mOverlappingPairs s"
            "mNotifications s' = mNotifications s @ [e]"
  shows "pairsLogged s'"
proof (rule pairsLogged_I)
  note D = pairsLogged_D [OF pl]
  from new D(4) [of k] have nk: "\<not> reported k (mNotifications s)" by simp
  show "distinct (mOverlappingPairs s')" unfolding s' using D(1) new by simp
  show "fst p \<le> snd p" if "p \<in> set (mOverlappingPairs s')" for p
    using that D(2) [of p] k(3) unfolding s' by auto
  show "alternating (notificationsOf p (mNotifications s'))" for p
    unfolding s' alternating_notifications_snoc using D(3) [of p] nk k by auto
  show "p \<in> set (mOverlappingPairs s') \<longleftrightarrow> reported p (mNotifications s')" for p
    unfolding s' reported_snoc using D(4) [of p] k by auto
qed

lemma pairsLogged_snoc_removed:
  assumes pl: "pairsLogged s" and old: "k \<in> set (mOverlappingPairs s)"
    and k: "pairOf e = k" "\<not> isAdded e"
    and s': "set (mOverlappingPairs s') = set (mOverlappingPairs s) - {k}"
            "distinct (mOverlappingPairs s')"
            "mNotifications s' = mNotifications s @ [e]"
  shows "pairsLogged s'"
proof (rule pairsLogged_I)
  note D = pairsLogged_D [OF pl]
  from old D(4) [of k] have rk: "reported k (mNotifications s)" by simp
  show "distinct (mOverlappingPairs s')" by (rule s'(2))
  show "fst p \<le> snd p" if "p \<in> set (mOverlappingPairs s')" for p
    using that D(2) [of p] unfolding s'(1) by auto
  show "alternating (notificationsOf p (mNotifications s'))" for p
    unfolding s'(3) alternating_notifications_snoc using D(3) [of p] rk k by auto
  show "p \<in> set (mOverlappingPairs s') \<longleftrightarrow> reported p (mNotifications s')" for p
    unfolding s'(1,3) reported_snoc using D(4) [of p] k by auto
qed

lemma pairsLogged_addPair: "pairsLogged s \<Longrightarrow> pairsLogged (addPair a b s)"
proof (cases "pairKey a b \<in> set (mOverlappingPairs s)")
  case True
  then show "pairsLogged s \<Longrightarrow> pairsLogged (addPair a b s)" by (simp add: addPair_def)
next
  case False
  assume pl: "pairsLogged s"
  show "pairsLogged (addPair a b s)"
  proof (rule pairsLogged_snoc_added [OF pl False, of "PairAdded a b"])
    show "pairOf (PairAdded a b) = pairKey a b" by simp
    show "isAdded (PairAdded a b)" by simp
    show "fst (pairKey a b) \<le> snd (pairKey a b)" by (rule pairKey_ordered)
    show "mOverlappingPairs (addPair a b s) = pairKey a b # mOverlappingPairs s"
      using False by (simp add: addPair_def)
    show "mNotifications (addPair a b s) = mNotifications s @ [PairAdded a b]"
      using False by (simp add: addPair_def)
  qed
qed

lemma pairsLogged_removePair: "pairsLogged s \<Longrightarrow> pairsLogged (removePair a b s)"
proof (cases "pairKey a b \<in> set (mOverlappingPairs s)")
  case False
  then show "pairsLogged s \<Longrightarrow> pairsLogged (removePair a b s)" by (simp add: removePair_def)
next
  case True
  assume pl: "pairsLogged s"
  show "pairsLogged (removePair a b s)"
  proof (rule pairsLogged_snoc_removed [OF pl True, of "PairRemoved a b"])
    show "pairOf (PairRemoved a b) = pairKey a b" by simp
    show "\<not> isAdded (PairRemoved a b)" by simp
    show "set (mOverlappingPairs (removePair a b s)) = set (mOverlappingPairs s) - {pairKey a b}"
      by simp
    show "distinct (mOverlappingPairs (removePair a b s))"
      using True pairsLogged_D(1) [OF pl] by (simp add: removePair_def distinct_removeAll)
    show "mNotifications (removePair a b s) = mNotifications s @ [PairRemoved a b]"
      using True by (simp add: removePair_def)
  qed
qed

lemma pairsLogged_fold_addPair:
  "pairsLogged s \<Longrightarrow> pairsLogged (fold (\<lambda>c. addPair a (g c)) cs s)"
  by (induction cs arbitrary: s) (simp_all add: pairsLogged_addPair)

lemma pairsLogged_recheckPair: "pairsLogged s \<Longrightarrow> pairsLogged (recheckPair b box c s)"
  by (simp add: recheckPair_def pairsLogged_addPair pairsLogged_removePair)

lemma pairsLogged_fold_recheckPair:
  "pairsLogged s \<Longrightarrow> pairsLogged (fold (recheckPair b box) cs s)"
  by (induction cs arbitrary: s) (simp_all add: pairsLogged_recheckPair)

lemma pairsLogged_remove_many:
  assumes "pairsLogged s" and "distinct L" and "set L \<subseteq> set (mOverlappingPairs s)"
    and "set (mOverlappingPairs s') = set (mOverlappingPairs s) - set L"
    and "distinct (mOverlappingPairs s')"
    and "mNotifications s' = mNotifications s @ map (\<lambda>p. PairRemoved (fst p) (snd p)) L"
  shows "pairsLogged s'"
  using assms
proof (induction L arbitrary: s)
  case Nil
  show ?case
  proof (rule pairsLogged_I)
    note D = pairsLogged_D [OF Nil.prems(1)]
    show "distinct (mOverlappingPairs s')" by (rule Nil.prems(5))
    show "fst p \<le> snd p" if "p \<in> set (mOverlappingPairs s')" for p
      using that D(2) [of p] Nil.prems(4) by simp
    show "alternating (notificationsOf p (mNotifications s'))" for p
      using D(3) [of p] Nil.prems(6) by simp
    show "p \<in> set (mOverlappingPairs s') \<longleftrightarrow> reported p (mNotifications s')" for p
      using D(4) [of p] Nil.prems(4,6) by simp
  qed
next
  case (Cons k L)
  note D = pairsLogged_D [OF Cons.prems(1)]
  from Cons.prems(3) have kin: "k \<in> set (mOverlappingPairs s)" by simp
  define s1 where "s1 = s\<lparr>mOverlappingPairs := removeAll k (mOverlappingPairs s),
      mNotifications := mNotifications s @ [PairRemoved (fst k) (snd k)]\<rparr>"
  have pl1: "pairsLogged s1"
  proof (rule pairsLogged_snoc_removed [OF Cons.prems(1) kin, of "PairRemoved (fst k) (snd k)"])
    show "pairOf (PairRemoved (fst k) (snd k)) = k"
      using pairKey_normal [OF D(2) [OF kin]] by simp
    show "\<not> isAdded (PairRemoved (fst k) (snd k))" by simp
    show "set (mOverlappingPairs s1) = set (mOverlappingPairs s) - {k}" by (simp add: s1_def)
    show "distinct (mOverlappingPairs s1)" using D(1) by (simp add: s1_def distinct_removeAll)
    show "mNotifications s1 = mNotifications s @ [PairRemoved (fst k) (snd k)]"
      by (simp add: s1_def)
  qed
  show ?case
  proof (rule Cons.IH [OF pl1])
    show "distinct L" using Cons.prems(2) by simp
    show "set L \<subseteq> set (mOverlappingPairs s1)"
      using Cons.prems(2,3) by (auto simp add: s1_def)
    show "set (mOverlappingPairs s') = set (mOverlappingPairs s1) - set L"
      using Cons.prems(4) by (auto simp add: s1_def)
    show "distinct (mOverlappingPairs s')" by (rule Cons.prems(5))
    show "mNotifications s' = mNotifications s1 @ map (\<lambda>p. PairRemoved (fst p) (snd p)) L"
      using Cons.prems(6) by (simp add: s1_def)
  qed
qed

lemma pairsLogged_empty: "pairsLogged emptySweepAndPrune"
  by (simp add: pairsLogged_def emptySweepAndPrune_def notificationsOf_def reported_def)

lemma pairsLogged_addObject:
  assumes "addObject b aabb s = Inr s'" and "pairsLogged s"
  shows "pairsLogged s'"
proof -
  define ov where "ov = filter (\<lambda>c. overlap3D (AABBInt_of aabb) (boxAABBInt s c))
                    (map boxID (filter isMin (mEndPoints s 0)))"
  define s1 where "s1 = s\<lparr>mBoxes := (if mFreeBoxIndices s = [] then mBoxes s @ [b]
                                 else (mBoxes s)[newBoxIndex s := b]),
                   mFreeBoxIndices := tl (mFreeBoxIndices s),
                   mEndPoints := (\<lambda>axis.
                      insertEndPoint \<lparr>boxID = newBoxIndex s, isMin = False,
                          value_ep = max_int (AABBInt_of aabb) axis\<rparr>
                        (insertEndPoint \<lparr>boxID = newBoxIndex s, isMin = True,
                          value_ep = min_int (AABBInt_of aabb) axis\<rparr>
                           (mEndPoints s axis))),
                   mMapBodyToBoxIndex := (mMapBodyToBoxIndex s)(b \<mapsto> newBoxIndex s)\<rparr>"
  from assms(1) have "mMapBodyToBoxIndex s b = None"
    by (simp add: addObject_def split: if_splits)
  with assms(1) have s': "s' = fold (\<lambda>c. addPair b (mBoxes s ! c)) ov s1"
    by (simp add: addObject_def Let_def ov_def s1_def)
  have "mOverlappingPairs s1 = mOverlappingPairs s" "mNotifications s1 = mNotifications s"
    by (simp_all add: s1_def)
  with assms(2) have "pairsLogged s1" using pairsLogged_cong [of s1 s] by simp
  then show ?thesis unfolding s' by (rule pairsLogged_fold_addPair)
qed

lemma pairsLogged_updateObject:
  assumes "updateObject b aabb s = Inr s'" and "pairsLogged s"
  shows "pairsLogged s'"
proof -
  from assms(1) obtain i where i: "mMapBodyToBoxIndex s b = Some i"
    by (auto simp add: updateObject_def split: option.splits)
  define moved where "moved = (\<lambda>axis. updateAxis i (min_int (AABBInt_of aabb) axis)
                                   (max_int (AABBInt_of aabb) axis) (mEndPoints s axis))"
  define s1 where "s1 = s\<lparr>mEndPoints := (\<lambda>axis. fst (moved axis))\<rparr>"
  from assms(1) i have s': "s' = fold (recheckPair i (AABBInt_of aabb))
                    (snd (moved 0) @ snd (moved 1) @ snd (moved 2)) s1"
    by (simp add: updateObject_def Let_def moved_def s1_def)
  have "mOverlappingPairs s1 = mOverlappingPairs s" "mNotifications s1 = mNotifications s"
    by (simp_all add: s1_def)
  with assms(2) have "pairsLogged s1" using pairsLogged_cong [of s1 s] by simp
  then show ?thesis unfolding s' by (rule pairsLogged_fold_recheckPair)
qed

lemma pairsLogged_removeObject:
  assumes "removeObject b s = Inr s'" and pl: "pairsLogged s"
  shows "pairsLogged s'"
proof -
  from removeObject_Inr [OF assms(1)] have
    p': "mOverlappingPairs s' = filter (\<lambda>p. \<not> (fst p = b \<or> snd p = b)) (mOverlappingPairs s)"
    and n': "mNotifications s' = mNotifications s @
        map (\<lambda>p. PairRemoved (fst p) (snd p))
          (filter (\<lambda>p. fst p = b \<or> snd p = b) (mOverlappingPairs s))"
    by blast+
  note D = pairsLogged_D [OF pl]
  show ?thesis
  proof (rule pairsLogged_remove_many [OF pl _ _ _ _ n'])
    show "distinct (filter (\<lambda>p. fst p = b \<or> snd p = b) (mOverlappingPairs s))"
      using D(1) by simp
    show "set (filter (\<lambda>p. fst p = b \<or> snd p = b) (mOverlappingPairs s)) \<subseteq> set (mOverlappingPairs s)"
      by simp
    show "set (mOverlappingPairs s') =
        set (mOverlappingPairs s) - set (filter (\<lambda>p. fst p = b \<or> snd p = b) (mOverlappingPairs s))"
      unfolding p' by auto
    show "distinct (mOverlappingPairs s')" unfolding p' using D(1) by simp
  qed
qed

lemma pairsLogged_run_from:
  "run xs s = Inr s' \<Longrightarrow> pairsLogged s \<Longrightarrow> pairsLogged s'"
proof (induction xs arbitrary: s)
  case Nil
  then show ?case by simp
next
  case (Cons x xs)
  from Cons.prems(1) obtain s1 where s1: "perform x s = Inr s1" and rest: "run xs s1 = Inr s'"
    by (auto split: sum.splits)
  have "pairsLogged s1"
  proof (cases x)
    case (AddObject b aabb)
    with s1 Cons.prems(2) show ?thesis by (auto intro: pairsLogged_addObject)
  next
    case (RemoveObject b)
    with s1 Cons.prems(2) show ?thesis by (auto intro: pairsLogged_removeObject)
  next
    case (UpdateObject b aabb)
    with s1 Cons.prems(2) show ?thesis by (auto intro: pairsLogged_updateObject)
  qed
  with Cons.IH [OF rest] show ?case by simp
qed

subsection \<open>Markers that are not passed keep their side\<close>

lemma moveEndPoint_unpassed:
  assumes sp: "splitAtEndPoint (\<lambda>e. boxID e = b \<and> isMin e = m) [] xs = Some (ls, e, rs)"
    and srt: "sorted (map value_ep xs)"
  shows "\<exists>passed.
           snd (moveEndPoint b m v xs) =
             map boxID (filter (\<lambda>x. isMin x \<noteq> m \<and> boxID x \<noteq> b) passed) \<and>
           (\<forall>y \<in> set ls. y \<notin> set passed \<longrightarrow> value_ep y \<le> value_ep e \<and> value_ep y \<le> v) \<and>
           (\<forall>y \<in> set rs. y \<notin> set passed \<longrightarrow> value_ep e \<le> value_ep y \<and> v \<le> value_ep y)"
proof -
  obtain ls1 rs1 p1 where l: "siftLeft v ls rs [] = (ls1, rs1, p1)"
    by (cases "siftLeft v ls rs []") blast
  obtain ls2 rs2 p2 where r: "siftRight v ls1 rs1 p1 = (ls2, rs2, p2)"
    by (cases "siftRight v ls1 rs1 p1") blast
  from splitAtEndPoint_Some [OF sp] have xs: "xs = rev ls @ e # rs" by simp
  from srt have s1: "sorted (map value_ep (rev ls))" and s2: "sorted (map value_ep rs)"
    and le: "\<forall>y \<in> set ls. value_ep y \<le> value_ep e"
    and ge: "\<forall>y \<in> set rs. value_ep e \<le> value_ep y"
    unfolding xs by (auto simp add: sorted_append)
  from srt have rest: "sorted (map value_ep (rev ls @ rs))"
    unfolding xs by (rule sorted_remove_middle)
  from siftLeft_passed [OF l] obtain q1 where
    q1: "ls = q1 @ ls1" "rs1 = rev q1 @ rs" "p1 = [] @ q1" by blast
  from siftRight_passed [OF r] obtain q2 where
    q2: "rs1 = q2 @ rs2" "ls2 = rev q2 @ ls1" "p2 = p1 @ q2" by blast
  from siftLeft_bound [OF l s1] have b1: "\<forall>x \<in> set ls1. value_ep x \<le> v" .
  have "rev ls1 @ rs1 = rev ls @ rs" by (rule siftLeft_rest [OF l])
  with rest have "sorted (map value_ep rs1)" by (metis map_append sorted_append)
  from siftRight_bound [OF r this b1] have b2: "\<forall>y \<in> set rs2. v \<le> value_ep y" by simp
  have mv: "snd (moveEndPoint b m v xs) =
      map boxID (filter (\<lambda>x. isMin x \<noteq> m \<and> boxID x \<noteq> b) p2)"
    using sp l r by (simp add: moveEndPoint_def)
  have left: "\<forall>y \<in> set ls. y \<notin> set p2 \<longrightarrow> value_ep y \<le> value_ep e \<and> value_ep y \<le> v"
  proof (intro ballI impI)
    fix y assume y: "y \<in> set ls" "y \<notin> set p2"
    then have "y \<in> set ls1" using q1 q2 by auto
    with b1 le y(1) show "value_ep y \<le> value_ep e \<and> value_ep y \<le> v" by simp
  qed
  have right: "\<forall>y \<in> set rs. y \<notin> set p2 \<longrightarrow> value_ep e \<le> value_ep y \<and> v \<le> value_ep y"
  proof (intro ballI impI)
    fix y assume y: "y \<in> set rs" "y \<notin> set p2"
    from y(1) have "y \<in> set rs1" using q1(2) by simp
    then have "y \<in> set q2 \<or> y \<in> set rs2" using q2(1) by simp
    with y(2) q2(3) have "y \<in> set rs2" by auto
    with b2 ge y(1) show "value_ep e \<le> value_ep y \<and> v \<le> value_ep y" by simp
  qed
  from mv left right show ?thesis by blast
qed

lemma key_member:
  "(c, k) \<in> endPointKey ` set xs \<Longrightarrow> \<exists>y \<in> set xs. boxID y = c \<and> isMin y = k"
  by (auto simp add: endPointKey_def)

lemma moveEndPoint_compare:
  assumes srt: "sorted (map value_ep xs)" and d: "distinct (map endPointKey xs)"
    and kb: "(b, m) \<in> endPointKey ` set xs" and kc: "(c, \<not> m) \<in> endPointKey ` set xs"
    and cb: "c \<noteq> b" and nc: "c \<notin> set (snd (moveEndPoint b m v xs))"
    and ne1: "endPointValue xs c (\<not> m) \<noteq> endPointValue xs b m"
    and ne2: "endPointValue xs c (\<not> m) \<noteq> v"
  shows "endPointValue xs c (\<not> m) < endPointValue xs b m \<longleftrightarrow> endPointValue xs c (\<not> m) < v"
proof -
  from key_member [OF kc] obtain y where y: "y \<in> set xs" "boxID y = c" "isMin y = (\<not> m)" by blast
  from key_member [OF kb] have "\<not> (\<forall>x \<in> set xs. \<not> (boxID x = b \<and> isMin x = m))" by blast
  then obtain ls e rs where
    sp: "splitAtEndPoint (\<lambda>e. boxID e = b \<and> isMin e = m) [] xs = Some (ls, e, rs)"
    using splitAtEndPoint_None [of "\<lambda>e. boxID e = b \<and> isMin e = m" "[]" xs]
    by (cases "splitAtEndPoint (\<lambda>e. boxID e = b \<and> isMin e = m) [] xs") auto
  from splitAtEndPoint_Some [OF sp] have xs: "xs = rev ls @ e # rs"
    and e: "boxID e = b" "isMin e = m" by simp_all
  have ein: "e \<in> set xs" unfolding xs by simp
  from endPointValue_member [OF d ein] e have ve: "endPointValue xs b m = value_ep e" by simp
  from endPointValue_member [OF d y(1)] y have vy: "endPointValue xs c (\<not> m) = value_ep y" by simp
  from y e cb have "y \<noteq> e" by auto
  with y(1) have yin: "y \<in> set ls \<or> y \<in> set rs" unfolding xs by auto
  from moveEndPoint_unpassed [OF sp srt, of v] obtain passed where
    cr: "snd (moveEndPoint b m v xs) =
             map boxID (filter (\<lambda>x. isMin x \<noteq> m \<and> boxID x \<noteq> b) passed)"
    and left: "\<forall>y \<in> set ls. y \<notin> set passed \<longrightarrow> value_ep y \<le> value_ep e \<and> value_ep y \<le> v"
    and right: "\<forall>y \<in> set rs. y \<notin> set passed \<longrightarrow> value_ep e \<le> value_ep y \<and> v \<le> value_ep y"
    by blast
  have "y \<notin> set passed"
  proof
    assume "y \<in> set passed"
    with y cb have "y \<in> set (filter (\<lambda>x. isMin x \<noteq> m \<and> boxID x \<noteq> b) passed)" by simp
    then have "boxID y \<in> set (snd (moveEndPoint b m v xs))" unfolding cr by (simp add: image_iff) blast
    with nc y(2) show False by simp
  qed
  with yin left right have
    "(value_ep y \<le> value_ep e \<and> value_ep y \<le> v) \<or> (value_ep e \<le> value_ep y \<and> v \<le> value_ep y)"
    by blast
  with ne1 ne2 show ?thesis unfolding ve vy by auto
qed

lemma noTouchingAxis_values:
  assumes "noTouchingAxis xs" and d: "distinct (map endPointKey xs)"
    and ki: "(i, True) \<in> endPointKey ` set xs" and kc: "(c, False) \<in> endPointKey ` set xs"
    and ne: "i \<noteq> c"
  shows "endPointValue xs i True \<noteq> endPointValue xs c False"
proof -
  from key_member [OF ki] obtain e where e: "e \<in> set xs" "boxID e = i" "isMin e = True" by blast
  from key_member [OF kc] obtain e' where e': "e' \<in> set xs" "boxID e' = c" "isMin e' = False" by blast
  from assms(1) e(1) e'(1) have
    "\<not> (isMin e \<and> \<not> isMin e' \<and> boxID e \<noteq> boxID e' \<and> value_ep e = value_ep e')"
    unfolding noTouchingAxis_def list_all_iff by blast
  with e e' ne have "value_ep e \<noteq> value_ep e'" by simp
  moreover from endPointValue_member [OF d e(1)] e have "endPointValue xs i True = value_ep e" by simp
  moreover from endPointValue_member [OF d e'(1)] e' have "endPointValue xs c False = value_ep e'" by simp
  ultimately show ?thesis by simp
qed

lemma updateAxis_overlap_unchanged:
  assumes srt: "sorted (map value_ep xs)" and d: "distinct (map endPointKey xs)"
    and ki: "(i, True) \<in> endPointKey ` set xs" "(i, False) \<in> endPointKey ` set xs"
    and kc: "(c, True) \<in> endPointKey ` set xs" "(c, False) \<in> endPointKey ` set xs"
    and ne: "c \<noteq> i"
    and nc: "c \<notin> set (snd (updateAxis i vmin vmax xs))"
    and nt: "noTouchingAxis xs" and nt': "noTouchingAxis (fst (updateAxis i vmin vmax xs))"
  shows "(endPointValue xs i False < endPointValue xs c True \<or>
          endPointValue xs c False < endPointValue xs i True) \<longleftrightarrow>
         (vmax < endPointValue xs c True \<or> endPointValue xs c False < vmin)"
proof -
  let ?xs1 = "fst (moveEndPoint i True vmin xs)"
  let ?ys = "fst (updateAxis i vmin vmax xs)"
  note vy = endPointValue_updateAxis [OF d ki]
  have dy: "distinct (map endPointKey ?ys)" and ky: "endPointKey ` set ?ys = endPointKey ` set xs"
    using d by (simp_all add: keys_updateAxis)
  have d1: "distinct (map endPointKey ?xs1)" and k1: "endPointKey ` set ?xs1 = endPointKey ` set xs"
    using d by (simp_all add: keys_moveEndPoint)
  have s1: "sorted (map value_ep ?xs1)" by (rule sorted_moveEndPoint [OF srt])
  note v1 = endPointValue_moveEndPoint [OF d ki(1)]
  from nc have nc1: "c \<notin> set (snd (moveEndPoint i True vmin xs))"
    and nc2: "c \<notin> set (snd (moveEndPoint i False vmax ?xs1))"
    by (simp_all add: updateAxis_eq)
  have a1: "endPointValue xs c False \<noteq> endPointValue xs i True"
    using noTouchingAxis_values [OF nt d ki(1) kc(2)] ne by auto
  have a2: "endPointValue xs c False \<noteq> vmin"
    using noTouchingAxis_values [OF nt' dy, of i c] ki(1) kc(2) ne unfolding ky vy by auto
  have b1: "endPointValue xs c True \<noteq> endPointValue xs i False"
    using noTouchingAxis_values [OF nt d kc(1) ki(2)] ne by auto
  have b2: "endPointValue xs c True \<noteq> vmax"
    using noTouchingAxis_values [OF nt' dy, of c i] ki(2) kc(1) ne unfolding ky vy by auto
  have m1: "endPointValue xs c False < endPointValue xs i True \<longleftrightarrow> endPointValue xs c False < vmin"
    using moveEndPoint_compare [OF srt d ki(1) _ ne nc1, of ] kc(2) a1 a2 by simp
  have "endPointValue ?xs1 c True < endPointValue ?xs1 i False \<longleftrightarrow> endPointValue ?xs1 c True < vmax"
  proof (rule moveEndPoint_compare [where m = False, simplified, OF s1 d1 _ _ ne nc2])
    show "(i, False) \<in> endPointKey ` set ?xs1" unfolding k1 by (rule ki(2))
    show "(c, True) \<in> endPointKey ` set ?xs1" unfolding k1 by (rule kc(1))
    show "endPointValue ?xs1 c True \<noteq> endPointValue ?xs1 i False"
      unfolding v1 using b1 ne by simp
    show "endPointValue ?xs1 c True \<noteq> vmax" unfolding v1 using b2 ne by simp
  qed
  then have m2: "endPointValue xs c True < endPointValue xs i False \<longleftrightarrow> endPointValue xs c True < vmax"
    unfolding v1 using ne by simp
  from m1 m2 a1 a2 b1 b2 show ?thesis by auto
qed

subsection \<open>Keys of pairs\<close>

lemma pairKey_eq_iff:
  "pairKey a b = pairKey c d \<longleftrightarrow> (a = c \<and> b = d) \<or> (a = d \<and> b = c)"
  by (auto simp add: pairKey_def min_def max_def)

lemma pairKey_commute: "pairKey a b = pairKey b a"
  by (simp add: pairKey_eq_iff)

lemma pairKey_self: "fst (pairKey a b) = snd (pairKey a b) \<longleftrightarrow> a = b"
  by (auto simp add: pairKey_def min_def max_def)

lemma overlap3D_commute: "overlap3D a b = overlap3D b a"
  by (auto simp add: overlap3D_def overlap1D_def)

subsection \<open>The stored boxes after a call\<close>

lemma boxAABBInt_addObject:
  assumes a: "addObject b aabb s = Inr s'" and wf: "wellFormed s"
  shows "boxAABBInt s' c =
           (if c = newBoxIndex s then AABBInt_of aabb else boxAABBInt s c)"
proof -
  let ?n = "newBoxIndex s"
  from wf have mm: "markersMatch s" and sc: "slotsConsistent s" by (simp_all add: wellFormed_def)
  have fresh: "?n \<notin> liveBoxes s" by (rule newBoxIndex_fresh [OF sc])
  have v: "endPointValue (mEndPoints s' axis) j m =
      (if j = ?n then (if m then min_int (AABBInt_of aabb) axis else max_int (AABBInt_of aabb) axis)
       else endPointValue (mEndPoints s axis) j m)" for j m axis
  proof -
    from mm have k: "endPointKey ` set (mEndPoints s axis) = liveBoxes s \<times> UNIV"
      by (simp add: markersMatch_def)
    let ?emin = "\<lparr>boxID = ?n, isMin = True, value_ep = min_int (AABBInt_of aabb) axis\<rparr>"
    let ?emax = "\<lparr>boxID = ?n, isMin = False, value_ep = max_int (AABBInt_of aabb) axis\<rparr>"
    have k1: "endPointKey ?emin \<notin> endPointKey ` set (mEndPoints s axis)"
      using fresh unfolding k by (simp add: endPointKey_def)
    have k2: "endPointKey ?emax \<notin> endPointKey ` set (insertEndPoint ?emin (mEndPoints s axis))"
      using fresh k by (auto simp add: endPointKey_def)
    show ?thesis
      unfolding addObject_Inr(3) [OF a]
        endPointValue_insertEndPoint [OF k2] endPointValue_insertEndPoint [OF k1]
      by auto
  qed
  show ?thesis unfolding boxAABBInt_def v by (simp add: AABBInt_of_def)
qed

lemma boxAABBInt_removeObject:
  assumes "removeObject b s = Inr s'" and "mMapBodyToBoxIndex s b = Some i" and "c \<noteq> i"
  shows "boxAABBInt s' c = boxAABBInt s c"
proof -
  from removeObject_Inr [OF assms(1)] assms(2) have
    e': "mEndPoints s' = (\<lambda>axis. filter (\<lambda>e. boxID e \<noteq> i) (mEndPoints s axis))" by auto
  show ?thesis unfolding boxAABBInt_def e' using assms(3) by (simp add: endPointValue_filter)
qed

lemma boxAABBInt_updateObject:
  assumes u: "updateObject b aabb s = Inr s'" and wf: "wellFormed s"
    and i: "mMapBodyToBoxIndex s b = Some i"
  shows "boxAABBInt s' c = (if c = i then AABBInt_of aabb else boxAABBInt s c)"
proof -
  from updateObject_Inr [OF u] i have
    e': "mEndPoints s' = (\<lambda>axis. fst (updateAxis i (min_int (AABBInt_of aabb) axis)
                                   (max_int (AABBInt_of aabb) axis) (mEndPoints s axis)))"
    by auto
  from wf have mm: "markersMatch s" by (simp add: wellFormed_def)
  have ilive: "i \<in> liveBoxes s" using i by (auto simp add: liveBoxes_def ran_def)
  have v: "endPointValue (mEndPoints s' axis) j m =
      (if j = i then (if m then min_int (AABBInt_of aabb) axis else max_int (AABBInt_of aabb) axis)
       else endPointValue (mEndPoints s axis) j m)" for j m axis
  proof -
    from mm have d: "distinct (map endPointKey (mEndPoints s axis))"
      and k: "endPointKey ` set (mEndPoints s axis) = liveBoxes s \<times> UNIV"
      by (simp_all add: markersMatch_def)
    from k ilive have k1: "(i, True) \<in> endPointKey ` set (mEndPoints s axis)"
      and k2: "(i, False) \<in> endPointKey ` set (mEndPoints s axis)" by simp_all
    show ?thesis unfolding e' endPointValue_updateAxis [OF d k1 k2] by (rule refl)
  qed
  show ?thesis unfolding boxAABBInt_def v by (simp add: AABBInt_of_def)
qed

subsection \<open>The pairs after the rechecks of an update\<close>

lemma recheckPair_pairs:
  "k \<in> set (mOverlappingPairs (recheckPair b box c s)) \<longleftrightarrow>
     (if k = pairKey (mBoxes s ! b) (mBoxes s ! c) then overlap3D box (boxAABBInt s c)
      else k \<in> set (mOverlappingPairs s))"
  by (auto simp add: recheckPair_def)

lemma boxAABBInt_recheckPair [simp]: "boxAABBInt (recheckPair b box c s) j = boxAABBInt s j"
  by (simp add: recheckPair_def)

lemma fold_recheckPair_pairs:
  assumes "\<forall>c \<in> set cs. overlap3D box (boxAABBInt s c) = want (pairKey (mBoxes s ! b) (mBoxes s ! c))"
  shows "k \<in> set (mOverlappingPairs (fold (recheckPair b box) cs s)) \<longleftrightarrow>
     (if k \<in> (\<lambda>c. pairKey (mBoxes s ! b) (mBoxes s ! c)) ` set cs then want k
      else k \<in> set (mOverlappingPairs s))"
  using assms
proof (induction cs arbitrary: s)
  case Nil
  then show ?case by simp
next
  case (Cons c cs)
  let ?s2 = "recheckPair b box c s"
  have "\<forall>c \<in> set cs. overlap3D box (boxAABBInt ?s2 c) =
      want (pairKey (mBoxes ?s2 ! b) (mBoxes ?s2 ! c))"
    using Cons.prems by simp
  from Cons.IH [OF this] have
    "k \<in> set (mOverlappingPairs (fold (recheckPair b box) cs ?s2)) \<longleftrightarrow>
     (if k \<in> (\<lambda>c. pairKey (mBoxes s ! b) (mBoxes s ! c)) ` set cs then want k
      else k \<in> set (mOverlappingPairs ?s2))" by simp
  moreover have "overlap3D box (boxAABBInt s c) = want (pairKey (mBoxes s ! b) (mBoxes s ! c))"
    using Cons.prems by simp
  ultimately show ?case unfolding recheckPair_pairs by auto
qed

subsection \<open>Bodies and box slots\<close>

lemma tracked_live:
  "mMapBodyToBoxIndex s x = Some i \<Longrightarrow> i \<in> liveBoxes s"
  by (auto simp add: liveBoxes_def ran_def)

lemma tracked_body:
  "slotsConsistent s \<Longrightarrow> mMapBodyToBoxIndex s x = Some i \<Longrightarrow> mBoxes s ! i = x"
  by (simp add: slotsConsistent_def)

lemma tracked_inj:
  assumes "slotsConsistent s" and "mMapBodyToBoxIndex s x = Some i"
    and "mMapBodyToBoxIndex s y = Some i"
  shows "x = y"
  using tracked_body [OF assms(1,2)] tracked_body [OF assms(1,3)] by simp

lemma live_tracked:
  assumes "slotsConsistent s" and "c \<in> liveBoxes s"
  shows "mMapBodyToBoxIndex s (mBoxes s ! c) = Some c"
proof -
  from assms(2) obtain x where x: "mMapBodyToBoxIndex s x = Some c"
    by (auto simp add: liveBoxes_def ran_def)
  with tracked_body [OF assms(1) x] show ?thesis by simp
qed

lemma candidates_live:
  assumes "markersMatch s"
  shows "set (map boxID (filter isMin (mEndPoints s axis))) = liveBoxes s"
proof
  show "set (map boxID (filter isMin (mEndPoints s axis))) \<subseteq> liveBoxes s"
    using boxIDs_live [OF assms, of axis] by auto
next
  show "liveBoxes s \<subseteq> set (map boxID (filter isMin (mEndPoints s axis)))"
  proof
    fix c assume "c \<in> liveBoxes s"
    with assms have "(c, True) \<in> endPointKey ` set (mEndPoints s axis)"
      by (simp add: markersMatch_def)
    from key_member [OF this] obtain y where "y \<in> set (mEndPoints s axis)" "boxID y = c" "isMin y"
      by auto
    then show "c \<in> set (map boxID (filter isMin (mEndPoints s axis)))" by force
  qed
qed

lemma untracked_not_in_pairs:
  assumes "pairsTracked s" and "mMapBodyToBoxIndex s b = None"
  shows "pairKey b y \<notin> set (mOverlappingPairs s)"
proof
  assume "pairKey b y \<in> set (mOverlappingPairs s)"
  with assms(1) have "fst (pairKey b y) \<in> dom (mMapBodyToBoxIndex s)"
    "snd (pairKey b y) \<in> dom (mMapBodyToBoxIndex s)" by (auto simp add: pairsTracked_def)
  with pairKey_involves [of b y] assms(2) show False by auto
qed

subsection \<open>The pair set is exact after \<open>addObject\<close>\<close>

lemma pairsExact_addObject:
  assumes a: "addObject b aabb s = Inr s'" and wf: "wellFormed s" and pe: "pairsExact s"
  shows "pairsExact s'"
proof -
  let ?n = "newBoxIndex s"
  let ?A = "AABBInt_of aabb"
  from wf have mm: "markersMatch s" and sc: "slotsConsistent s" and pt: "pairsTracked s"
    by (simp_all add: wellFormed_def)
  note none = addObject_Inr(1) [OF a]
  note m' = addObject_Inr(2) [OF a]
  have fresh: "?n \<notin> liveBoxes s" by (rule newBoxIndex_fresh [OF sc])
  have pairs': "set (mOverlappingPairs s') = set (mOverlappingPairs s) \<union>
      (\<lambda>c. pairKey b (mBoxes s ! c)) ` {c \<in> liveBoxes s. overlap3D ?A (boxAABBInt s c)}"
    unfolding addObject_Inr(6) [OF a] set_filter candidates_live [OF mm] by (rule refl)
  note box' = boxAABBInt_addObject [OF a wf]
  have new: "pairKey b y \<in> set (mOverlappingPairs s') \<longleftrightarrow> overlap3D ?A (boxAABBInt s j)"
    if y: "mMapBodyToBoxIndex s y = Some j" for y j
  proof -
    have jl: "j \<in> liveBoxes s" by (rule tracked_live [OF y])
    have bj: "mBoxes s ! j = y" by (rule tracked_body [OF sc y])
    have yb: "y \<noteq> b" using y none by auto
    have "pairKey b y \<in> (\<lambda>c. pairKey b (mBoxes s ! c)) ` {c \<in> liveBoxes s. overlap3D ?A (boxAABBInt s c)}
        \<longleftrightarrow> overlap3D ?A (boxAABBInt s j)"
    proof
      assume "pairKey b y \<in> (\<lambda>c. pairKey b (mBoxes s ! c)) ` {c \<in> liveBoxes s. overlap3D ?A (boxAABBInt s c)}"
      then obtain c where c: "c \<in> liveBoxes s" "overlap3D ?A (boxAABBInt s c)"
        "pairKey b y = pairKey b (mBoxes s ! c)" by auto
      from c(3) yb have "mBoxes s ! c = y" by (auto simp add: pairKey_eq_iff)
      with live_tracked [OF sc c(1)] y have "c = j" by simp
      with c(2) show "overlap3D ?A (boxAABBInt s j)" by simp
    next
      assume "overlap3D ?A (boxAABBInt s j)"
      with jl bj show "pairKey b y \<in> (\<lambda>c. pairKey b (mBoxes s ! c)) ` {c \<in> liveBoxes s. overlap3D ?A (boxAABBInt s c)}"
        by force
    qed
    with untracked_not_in_pairs [OF pt none, of y] show ?thesis unfolding pairs' by simp
  qed
  have old: "pairKey x y \<in> set (mOverlappingPairs s') \<longleftrightarrow> pairKey x y \<in> set (mOverlappingPairs s)"
    if "x \<noteq> b" "y \<noteq> b" for x y
    unfolding pairs' using that by (auto simp add: pairKey_eq_iff)
  show ?thesis
    unfolding pairsExact_def
  proof (intro allI impI)
    fix x y i j
    assume x: "mMapBodyToBoxIndex s' x = Some i" and y: "mMapBodyToBoxIndex s' y = Some j"
      and xy: "x \<noteq> y"
    show "pairKey x y \<in> set (mOverlappingPairs s') \<longleftrightarrow>
        overlap3D (boxAABBInt s' i) (boxAABBInt s' j)"
    proof (cases "x = b")
      case True
      with x have i: "i = ?n" unfolding m' by simp
      from True xy y have yo: "mMapBodyToBoxIndex s y = Some j" unfolding m' by simp
      with fresh have "j \<noteq> ?n" using tracked_live by blast
      with new [OF yo] True i show ?thesis unfolding box' by simp
    next
      case False
      with x have xo: "mMapBodyToBoxIndex s x = Some i" unfolding m' by simp
      with fresh have in': "i \<noteq> ?n" using tracked_live by blast
      show ?thesis
      proof (cases "y = b")
        case True
        with y have j: "j = ?n" unfolding m' by simp
        from new [OF xo] True j in' show ?thesis
          unfolding box'
          using pairKey_commute [of x b] overlap3D_commute [of "boxAABBInt s i" ?A]
          by simp
      next
        case yb: False
        with y have yo: "mMapBodyToBoxIndex s y = Some j" unfolding m' by simp
        with fresh have jn: "j \<noteq> ?n" using tracked_live by blast
        from pe xo yo xy have "pairKey x y \<in> set (mOverlappingPairs s) \<longleftrightarrow>
            overlap3D (boxAABBInt s i) (boxAABBInt s j)" unfolding pairsExact_def by blast
        with old [OF False yb] in' jn show ?thesis unfolding box' by simp
      qed
    qed
  qed
qed

lemma noSelfPairs_addObject:
  assumes a: "addObject b aabb s = Inr s'" and wf: "wellFormed s" and ns: "noSelfPairs s"
  shows "noSelfPairs s'"
  unfolding noSelfPairs_def
proof
  fix p assume p: "p \<in> set (mOverlappingPairs s')"
  from wf have mm: "markersMatch s" and sc: "slotsConsistent s" by (simp_all add: wellFormed_def)
  from p consider "p \<in> set (mOverlappingPairs s)"
    | c where "c \<in> boxID ` set (mEndPoints s 0)" "p = pairKey b (mBoxes s ! c)"
    unfolding addObject_Inr(6) [OF a] by auto
  then show "fst p \<noteq> snd p"
  proof cases
    case 1
    with ns show ?thesis by (simp add: noSelfPairs_def)
  next
    case 2
    from 2(1) boxIDs_live [OF mm] have "c \<in> liveBoxes s" by blast
    from live_tracked [OF sc this] addObject_Inr(1) [OF a] have "mBoxes s ! c \<noteq> b" by auto
    then show ?thesis unfolding 2(2) pairKey_self by simp
  qed
qed

subsection \<open>The pair set is exact after \<open>removeObject\<close>\<close>

lemma pairsExact_removeObject:
  assumes r: "removeObject b s = Inr s'" and wf: "wellFormed s" and pe: "pairsExact s"
  shows "pairsExact s'"
proof -
  from removeObject_Inr [OF r] obtain i where
    i: "mMapBodyToBoxIndex s b = Some i"
    and m': "mMapBodyToBoxIndex s' = (mMapBodyToBoxIndex s)(b := None)"
    and pairs': "mOverlappingPairs s' = filter (\<lambda>p. \<not> (fst p = b \<or> snd p = b)) (mOverlappingPairs s)"
    by blast
  from wf have sc: "slotsConsistent s" by (simp add: wellFormed_def)
  then have inj: "inj_on (mMapBodyToBoxIndex s) (dom (mMapBodyToBoxIndex s))"
    by (simp add: slotsConsistent_def)
  show ?thesis
    unfolding pairsExact_def
  proof (intro allI impI)
    fix x y j k
    assume x: "mMapBodyToBoxIndex s' x = Some j" and y: "mMapBodyToBoxIndex s' y = Some k"
      and xy: "x \<noteq> y"
    from x y have xb: "x \<noteq> b" and yb: "y \<noteq> b"
      and xo: "mMapBodyToBoxIndex s x = Some j" and yo: "mMapBodyToBoxIndex s y = Some k"
      unfolding m' by (auto split: if_splits)
    have ji: "j \<noteq> i" using tracked_inj [OF sc _ i, of x] xo xb by auto
    have ki: "k \<noteq> i" using tracked_inj [OF sc _ i, of y] yo yb by auto
    have "\<not> (fst (pairKey x y) = b \<or> snd (pairKey x y) = b)"
      using pairKey_members [of x y] xb yb by auto
    then have "pairKey x y \<in> set (mOverlappingPairs s') \<longleftrightarrow> pairKey x y \<in> set (mOverlappingPairs s)"
      unfolding pairs' by simp
    also have "\<dots> \<longleftrightarrow> overlap3D (boxAABBInt s j) (boxAABBInt s k)"
      using pe xo yo xy unfolding pairsExact_def by blast
    finally show "pairKey x y \<in> set (mOverlappingPairs s') \<longleftrightarrow>
        overlap3D (boxAABBInt s' j) (boxAABBInt s' k)"
      unfolding boxAABBInt_removeObject [OF r i ji] boxAABBInt_removeObject [OF r i ki] .
  qed
qed

lemma noSelfPairs_removeObject:
  assumes "removeObject b s = Inr s'" and "noSelfPairs s"
  shows "noSelfPairs s'"
proof -
  from removeObject_Inr [OF assms(1)] have
    "mOverlappingPairs s' = filter (\<lambda>p. \<not> (fst p = b \<or> snd p = b)) (mOverlappingPairs s)"
    by blast
  with assms(2) show ?thesis by (simp add: noSelfPairs_def)
qed

subsection \<open>The pair set is exact after \<open>updateObject\<close>\<close>

lemma updateObject_fold:
  assumes "updateObject b aabb s = Inr s'" and "mMapBodyToBoxIndex s b = Some i"
  shows "s' = fold (recheckPair i (AABBInt_of aabb))
           (snd (updateAxis i (min_int (AABBInt_of aabb) 0) (max_int (AABBInt_of aabb) 0)
                   (mEndPoints s 0)) @
            snd (updateAxis i (min_int (AABBInt_of aabb) 1) (max_int (AABBInt_of aabb) 1)
                   (mEndPoints s 1)) @
            snd (updateAxis i (min_int (AABBInt_of aabb) 2) (max_int (AABBInt_of aabb) 2)
                   (mEndPoints s 2)))
           (s\<lparr>mEndPoints := (\<lambda>axis. fst (updateAxis i (min_int (AABBInt_of aabb) axis)
                   (max_int (AABBInt_of aabb) axis) (mEndPoints s axis)))\<rparr>)"
  using assms by (simp add: updateObject_def Let_def)

lemma overlap1D_boxes:
  "overlap1D (boxAABBInt s i) (boxAABBInt s c) axis \<longleftrightarrow>
     \<not> (endPointValue (mEndPoints s axis) i False < endPointValue (mEndPoints s axis) c True \<or>
        endPointValue (mEndPoints s axis) c False < endPointValue (mEndPoints s axis) i True)"
  by (simp add: overlap1D_def boxAABBInt_def)

lemma overlap1D_new_box:
  "overlap1D A (boxAABBInt s c) axis \<longleftrightarrow>
     \<not> (max_int A axis < endPointValue (mEndPoints s axis) c True \<or>
        endPointValue (mEndPoints s axis) c False < min_int A axis)"
  by (simp add: overlap1D_def boxAABBInt_def)

lemma pairsExact_updateObject:
  assumes u: "updateObject b aabb s = Inr s'" and wf: "wellFormed s" and pe: "pairsExact s"
    and nt: "noTouching s" and nt': "noTouching s'"
  shows "pairsExact s'"
proof -
  let ?A = "AABBInt_of aabb"
  from updateObject_Inr [OF u] obtain i where
    i: "mMapBodyToBoxIndex s b = Some i"
    and m': "mMapBodyToBoxIndex s' = mMapBodyToBoxIndex s"
    and e': "mEndPoints s' = (\<lambda>axis. fst (updateAxis i (min_int ?A axis)
                                   (max_int ?A axis) (mEndPoints s axis)))"
    by blast
  define crossed where "crossed = (\<lambda>axis. snd (updateAxis i (min_int ?A axis) (max_int ?A axis)
                   (mEndPoints s axis)))"
  define cs where "cs = crossed 0 @ crossed 1 @ crossed 2"
  define s1 where "s1 = s\<lparr>mEndPoints := (\<lambda>axis. fst (updateAxis i (min_int ?A axis)
                   (max_int ?A axis) (mEndPoints s axis)))\<rparr>"
  have s': "s' = fold (recheckPair i ?A) cs s1"
    unfolding cs_def crossed_def s1_def by (rule updateObject_fold [OF u i])
  from wf have srt: "arraysSorted s" and mm: "markersMatch s" and sc: "slotsConsistent s"
    by (simp_all add: wellFormed_def)
  have ilive: "i \<in> liveBoxes s" by (rule tracked_live [OF i])
  have bi: "mBoxes s ! i = b" by (rule tracked_body [OF sc i])
  note box' = boxAABBInt_updateObject [OF u wf i]
  have box1: "boxAABBInt s1 c = boxAABBInt s' c" for c
    unfolding boxAABBInt_def e' by (simp add: s1_def)
  have boxes1: "mBoxes s1 = mBoxes s" and pairs1: "mOverlappingPairs s1 = mOverlappingPairs s"
    by (simp_all add: s1_def)
  have crossed_live: "set (crossed axis) \<subseteq> liveBoxes s - {i}" for axis
    unfolding crossed_def using crossed_updateAxis [of i _ _ "mEndPoints s axis"]
      boxIDs_live [OF mm, of axis] by blast
  then have cs_live: "set cs \<subseteq> liveBoxes s - {i}" unfolding cs_def by auto
  define key where "key = (\<lambda>c. pairKey (mBoxes s ! i) (mBoxes s ! c))"
  define want where "want = (\<lambda>k. \<exists>c \<in> liveBoxes s - {i}. k = key c \<and> overlap3D ?A (boxAABBInt s c))"
  have key_inj: "c = c'" if "c \<in> liveBoxes s - {i}" "c' \<in> liveBoxes s - {i}" "key c = key c'" for c c'
  proof -
    from that(1) have cl: "c \<in> liveBoxes s" and ci: "c \<noteq> i" by simp_all
    from that(2) have cl': "c' \<in> liveBoxes s" and ci': "c' \<noteq> i" by simp_all
    note tc = live_tracked [OF sc cl] ci
    note tc' = live_tracked [OF sc cl'] ci'
    from live_tracked [OF sc ilive] have ti: "mMapBodyToBoxIndex s (mBoxes s ! i) = Some i" .
    from that(3) have "mBoxes s ! c = mBoxes s ! c' \<or> mBoxes s ! c = mBoxes s ! i"
      unfolding key_def pairKey_eq_iff by auto
    then show ?thesis
    proof
      assume e: "mBoxes s ! c = mBoxes s ! c'"
      from tc(1) have "mMapBodyToBoxIndex s (mBoxes s ! c') = Some c" unfolding e .
      then have "Some c' = Some c" unfolding tc'(1) .
      then show ?thesis by simp
    next
      assume e: "mBoxes s ! c = mBoxes s ! i"
      from tc(1) have "mMapBodyToBoxIndex s (mBoxes s ! i) = Some c" unfolding e .
      then have "Some i = Some c" unfolding ti .
      with ci show ?thesis by simp
    qed
  qed
  have want_key: "want (key c) \<longleftrightarrow> overlap3D ?A (boxAABBInt s c)" if "c \<in> liveBoxes s - {i}" for c
    unfolding want_def using key_inj [OF that] that by blast
  have hyp: "\<forall>c \<in> set cs. overlap3D ?A (boxAABBInt s1 c) = want (pairKey (mBoxes s1 ! i) (mBoxes s1 ! c))"
  proof
    fix c assume "c \<in> set cs"
    with cs_live have c: "c \<in> liveBoxes s - {i}" by blast
    then have "boxAABBInt s1 c = boxAABBInt s c" unfolding box1 box' by simp
    with want_key [OF c] show "overlap3D ?A (boxAABBInt s1 c) = want (pairKey (mBoxes s1 ! i) (mBoxes s1 ! c))"
      unfolding boxes1 key_def by simp
  qed
  have member: "k \<in> set (mOverlappingPairs s') \<longleftrightarrow>
      (if k \<in> key ` set cs then want k else k \<in> set (mOverlappingPairs s))" for k
    unfolding s' fold_recheckPair_pairs [OF hyp] boxes1 pairs1 key_def by (rule refl)
  have axis_same: "overlap1D (boxAABBInt s i) (boxAABBInt s c) axis \<longleftrightarrow>
      overlap1D ?A (boxAABBInt s c) axis"
    if c: "c \<in> liveBoxes s - {i}" and nc: "c \<notin> set cs" and ax: "axis \<in> {0, 1, 2}" for c axis
  proof -
    from mm have d: "distinct (map endPointKey (mEndPoints s axis))"
      and k: "endPointKey ` set (mEndPoints s axis) = liveBoxes s \<times> UNIV"
      by (simp_all add: markersMatch_def)
    from srt have so: "sorted (map value_ep (mEndPoints s axis))" by (simp add: arraysSorted_def)
    from nc ax have nc': "c \<notin> set (snd (updateAxis i (min_int ?A axis) (max_int ?A axis)
                   (mEndPoints s axis)))"
      unfolding cs_def crossed_def by auto
    from nt ax have n1: "noTouchingAxis (mEndPoints s axis)" unfolding noTouching_def by auto
    from nt' ax have "noTouchingAxis (mEndPoints s' axis)" unfolding noTouching_def by auto
    then have n2: "noTouchingAxis (fst (updateAxis i (min_int ?A axis) (max_int ?A axis)
                   (mEndPoints s axis)))" unfolding e' .
    have "(endPointValue (mEndPoints s axis) i False < endPointValue (mEndPoints s axis) c True \<or>
          endPointValue (mEndPoints s axis) c False < endPointValue (mEndPoints s axis) i True) \<longleftrightarrow>
         (max_int ?A axis < endPointValue (mEndPoints s axis) c True \<or>
          endPointValue (mEndPoints s axis) c False < min_int ?A axis)"
    proof (rule updateAxis_overlap_unchanged [OF so d _ _ _ _ _ nc' n1 n2])
      show "(i, True) \<in> endPointKey ` set (mEndPoints s axis)" unfolding k using ilive by simp
      show "(i, False) \<in> endPointKey ` set (mEndPoints s axis)" unfolding k using ilive by simp
      show "(c, True) \<in> endPointKey ` set (mEndPoints s axis)" unfolding k using c by simp
      show "(c, False) \<in> endPointKey ` set (mEndPoints s axis)" unfolding k using c by simp
      show "c \<noteq> i" using c by simp
    qed
    then show ?thesis by (simp add: overlap1D_def boxAABBInt_def)
  qed
  have with_b: "pairKey b y \<in> set (mOverlappingPairs s') \<longleftrightarrow> overlap3D ?A (boxAABBInt s c)"
    if y: "mMapBodyToBoxIndex s y = Some c" and yb: "y \<noteq> b" for y c
  proof -
    have cl: "c \<in> liveBoxes s - {i}"
      using tracked_live [OF y] tracked_inj [OF sc y, of b] i yb by auto
    have kc: "key c = pairKey b y" unfolding key_def bi tracked_body [OF sc y] by (rule refl)
    show ?thesis
    proof (cases "c \<in> set cs")
      case True
      then have "pairKey b y \<in> key ` set cs" unfolding kc [symmetric] by simp
      then show ?thesis unfolding member using want_key [OF cl] kc by simp
    next
      case False
      have "pairKey b y \<notin> key ` set cs"
      proof
        assume "pairKey b y \<in> key ` set cs"
        then obtain c' where c': "c' \<in> set cs" "key c = key c'" unfolding kc by auto
        with cs_live key_inj [OF cl _ c'(2)] have "c = c'" by blast
        with c'(1) False show False by simp
      qed
      then have "pairKey b y \<in> set (mOverlappingPairs s') \<longleftrightarrow> pairKey b y \<in> set (mOverlappingPairs s)"
        unfolding member by simp
      also have "\<dots> \<longleftrightarrow> overlap3D (boxAABBInt s i) (boxAABBInt s c)"
        using pe i y yb unfolding pairsExact_def by blast
      also have "\<dots> \<longleftrightarrow> overlap3D ?A (boxAABBInt s c)"
        unfolding overlap3D_def using axis_same [OF cl False] by simp
      finally show ?thesis .
    qed
  qed
  have without_b: "pairKey x y \<in> set (mOverlappingPairs s') \<longleftrightarrow> pairKey x y \<in> set (mOverlappingPairs s)"
    if "x \<noteq> b" "y \<noteq> b" for x y
  proof -
    have "pairKey x y \<notin> key ` set cs"
      unfolding key_def bi using that by (auto simp add: pairKey_eq_iff)
    then show ?thesis unfolding member by simp
  qed
  show ?thesis
    unfolding pairsExact_def m'
  proof (intro allI impI)
    fix x y j k
    assume x: "mMapBodyToBoxIndex s x = Some j" and y: "mMapBodyToBoxIndex s y = Some k"
      and xy: "x \<noteq> y"
    show "pairKey x y \<in> set (mOverlappingPairs s') \<longleftrightarrow>
        overlap3D (boxAABBInt s' j) (boxAABBInt s' k)"
    proof (cases "x = b")
      case True
      with x i have j: "j = i" by simp
      from True xy have yb: "y \<noteq> b" by simp
      then have "k \<noteq> i" using tracked_inj [OF sc y, of b] i by auto
      with with_b [OF y yb] True j show ?thesis unfolding box' by simp
    next
      case False
      then have ji: "j \<noteq> i" using tracked_inj [OF sc x, of b] i by auto
      show ?thesis
      proof (cases "y = b")
        case True
        with y i have k: "k = i" by simp
        from with_b [OF x False] True k ji show ?thesis
          unfolding box'
          using pairKey_commute [of x b] overlap3D_commute [of "boxAABBInt s j" ?A]
          by simp
      next
        case yb: False
        then have ki: "k \<noteq> i" using tracked_inj [OF sc y, of b] i by auto
        from pe x y xy have "pairKey x y \<in> set (mOverlappingPairs s) \<longleftrightarrow>
            overlap3D (boxAABBInt s j) (boxAABBInt s k)" unfolding pairsExact_def by blast
        with without_b [OF False yb] ji ki show ?thesis unfolding box' by simp
      qed
    qed
  qed
qed

lemma noSelfPairs_updateObject:
  assumes u: "updateObject b aabb s = Inr s'" and wf: "wellFormed s" and ns: "noSelfPairs s"
  shows "noSelfPairs s'"
  unfolding noSelfPairs_def
proof
  fix p assume p: "p \<in> set (mOverlappingPairs s')"
  from wf have mm: "markersMatch s" and sc: "slotsConsistent s" by (simp_all add: wellFormed_def)
  from updateObject_Inr [OF u] obtain i where
    i: "mMapBodyToBoxIndex s b = Some i"
    and pairs': "set (mOverlappingPairs s') \<subseteq> set (mOverlappingPairs s) \<union>
        (\<lambda>c. pairKey (mBoxes s ! i) (mBoxes s ! c)) `
          (\<Union>axis. set (snd (updateAxis i (min_int (AABBInt_of aabb) axis)
                                   (max_int (AABBInt_of aabb) axis) (mEndPoints s axis))))"
    by blast
  from p pairs' consider "p \<in> set (mOverlappingPairs s)"
    | c axis where "c \<in> set (snd (updateAxis i (min_int (AABBInt_of aabb) axis)
                                   (max_int (AABBInt_of aabb) axis) (mEndPoints s axis)))"
        "p = pairKey (mBoxes s ! i) (mBoxes s ! c)"
    by auto
  then show "fst p \<noteq> snd p"
  proof cases
    case 1
    with ns show ?thesis by (simp add: noSelfPairs_def)
  next
    case 2
    from 2(1) crossed_updateAxis have c: "c \<in> boxID ` set (mEndPoints s axis)" "c \<noteq> i" by blast+
    with boxIDs_live [OF mm] have "c \<in> liveBoxes s" by blast
    from live_tracked [OF sc this] live_tracked [OF sc tracked_live [OF i]] c(2)
    have "mBoxes s ! i \<noteq> mBoxes s ! c" by auto
    then show ?thesis unfolding 2(2) pairKey_self by simp
  qed
qed

subsection \<open>The stored boxes are the encoded AABBs supplied last\<close>

lemma storedAABBs_addObject:
  assumes a: "addObject b aabb s = Inr s'" and wf: "wellFormed s" and st: "storedAABBs s boxes"
  shows "storedAABBs s' (boxes(b \<mapsto> aabb))"
proof -
  from wf have sc: "slotsConsistent s" by (simp add: wellFormed_def)
  have fresh: "newBoxIndex s \<notin> liveBoxes s" by (rule newBoxIndex_fresh [OF sc])
  note m' = addObject_Inr(2) [OF a]
  note box' = boxAABBInt_addObject [OF a wf]
  from st have dom: "\<And>x. boxes x = None \<longleftrightarrow> mMapBodyToBoxIndex s x = None"
    and val: "\<And>x i a. mMapBodyToBoxIndex s x = Some i \<Longrightarrow> boxes x = Some a \<Longrightarrow>
         boxAABBInt s i = AABBInt_of a"
    unfolding storedAABBs_def by blast+
  show ?thesis
    unfolding storedAABBs_def
  proof (intro conjI allI impI)
    fix x show "(boxes(b \<mapsto> aabb)) x = None \<longleftrightarrow> mMapBodyToBoxIndex s' x = None"
      unfolding m' using dom [of x] by simp
  next
    fix x i a0
    assume x: "mMapBodyToBoxIndex s' x = Some i" and bx: "(boxes(b \<mapsto> aabb)) x = Some a0"
    show "boxAABBInt s' i = AABBInt_of a0"
    proof (cases "x = b")
      case True
      with x bx show ?thesis unfolding m' box' by simp
    next
      case False
      with x bx have xo: "mMapBodyToBoxIndex s x = Some i" and bo: "boxes x = Some a0"
        unfolding m' by simp_all
      from tracked_live [OF xo] fresh have "i \<noteq> newBoxIndex s" by auto
      with val [OF xo bo] show ?thesis unfolding box' by simp
    qed
  qed
qed

lemma storedAABBs_removeObject:
  assumes r: "removeObject b s = Inr s'" and wf: "wellFormed s" and st: "storedAABBs s boxes"
  shows "storedAABBs s' (boxes(b := None))"
proof -
  from removeObject_Inr [OF r] obtain i where
    i: "mMapBodyToBoxIndex s b = Some i"
    and m': "mMapBodyToBoxIndex s' = (mMapBodyToBoxIndex s)(b := None)" by blast
  from wf have sc: "slotsConsistent s" by (simp add: wellFormed_def)
  from st have dom: "\<And>x. boxes x = None \<longleftrightarrow> mMapBodyToBoxIndex s x = None"
    and val: "\<And>x i a. mMapBodyToBoxIndex s x = Some i \<Longrightarrow> boxes x = Some a \<Longrightarrow>
         boxAABBInt s i = AABBInt_of a"
    unfolding storedAABBs_def by blast+
  show ?thesis
    unfolding storedAABBs_def
  proof (intro conjI allI impI)
    fix x show "(boxes(b := None)) x = None \<longleftrightarrow> mMapBodyToBoxIndex s' x = None"
      unfolding m' using dom [of x] by simp
  next
    fix x j a0
    assume x: "mMapBodyToBoxIndex s' x = Some j" and bx: "(boxes(b := None)) x = Some a0"
    from x have xb: "x \<noteq> b" unfolding m' by (auto split: if_splits)
    with x bx have xo: "mMapBodyToBoxIndex s x = Some j" and bo: "boxes x = Some a0"
      unfolding m' by simp_all
    have "j \<noteq> i" using tracked_inj [OF sc xo, of b] i xb by auto
    with val [OF xo bo] show "boxAABBInt s' j = AABBInt_of a0"
      unfolding boxAABBInt_removeObject [OF r i \<open>j \<noteq> i\<close>] by simp
  qed
qed

lemma storedAABBs_updateObject:
  assumes u: "updateObject b aabb s = Inr s'" and wf: "wellFormed s" and st: "storedAABBs s boxes"
  shows "storedAABBs s' (boxes(b \<mapsto> aabb))"
proof -
  from updateObject_Inr [OF u] obtain i where
    i: "mMapBodyToBoxIndex s b = Some i"
    and m': "mMapBodyToBoxIndex s' = mMapBodyToBoxIndex s" by blast
  from wf have sc: "slotsConsistent s" by (simp add: wellFormed_def)
  note box' = boxAABBInt_updateObject [OF u wf i]
  from st have dom: "\<And>x. boxes x = None \<longleftrightarrow> mMapBodyToBoxIndex s x = None"
    and val: "\<And>x i a. mMapBodyToBoxIndex s x = Some i \<Longrightarrow> boxes x = Some a \<Longrightarrow>
         boxAABBInt s i = AABBInt_of a"
    unfolding storedAABBs_def by blast+
  show ?thesis
    unfolding storedAABBs_def
  proof (intro conjI allI impI)
    fix x show "(boxes(b \<mapsto> aabb)) x = None \<longleftrightarrow> mMapBodyToBoxIndex s' x = None"
      unfolding m' using dom [of x] i by simp
  next
    fix x j a0
    assume x: "mMapBodyToBoxIndex s' x = Some j" and bx: "(boxes(b \<mapsto> aabb)) x = Some a0"
    show "boxAABBInt s' j = AABBInt_of a0"
    proof (cases "x = b")
      case True
      with x bx i show ?thesis unfolding m' box' by simp
    next
      case False
      with x bx have xo: "mMapBodyToBoxIndex s x = Some j" and bo: "boxes x = Some a0"
        unfolding m' by simp_all
      have "j \<noteq> i" using tracked_inj [OF sc xo, of b] i False by auto
      with val [OF xo bo] show ?thesis unfolding box' by simp
    qed
  qed
qed

subsection \<open>Along a run\<close>

lemma pairsFaithful_empty: "pairsFaithful emptySweepAndPrune Map.empty"
  unfolding pairsFaithful_def
  by (simp add: wellFormed_empty)
     (simp add: pairsExact_def noSelfPairs_def storedAABBs_def noTouching_def noTouchingAxis_def
        emptySweepAndPrune_def)

lemma pairsFaithful_run_from:
  "run xs s = Inr s' \<Longrightarrow> pairsFaithful s boxes \<Longrightarrow> noTouchingAlong xs s \<Longrightarrow>
     pairsFaithful s' (lastAABBs xs boxes)"
proof (induction xs arbitrary: s boxes)
  case Nil
  then show ?case by simp
next
  case (Cons x xs)
  from Cons.prems(1) obtain s1 where s1: "perform x s = Inr s1" and rest: "run xs s1 = Inr s'"
    by (auto split: sum.splits)
  from Cons.prems(3) s1 have nt1: "noTouching s1" and along: "noTouchingAlong xs s1" by simp_all
  from Cons.prems(2) have wf: "wellFormed s" and pe: "pairsExact s" and ns: "noSelfPairs s"
    and st: "storedAABBs s boxes" and nt: "noTouching s"
    by (simp_all add: pairsFaithful_def)
  have wf1: "wellFormed s1" by (rule wellFormed_perform [OF s1 wf])
  show ?case
  proof (cases x)
    case (AddObject b aabb)
    with s1 have a: "addObject b aabb s = Inr s1" by simp
    have "pairsFaithful s1 (boxes(b \<mapsto> aabb))"
      unfolding pairsFaithful_def
      using wf1 pairsExact_addObject [OF a wf pe] noSelfPairs_addObject [OF a wf ns]
        storedAABBs_addObject [OF a wf st] nt1 by simp
    from Cons.IH [OF rest this along] show ?thesis unfolding AddObject lastAABBs.simps .
  next
    case (RemoveObject b)
    with s1 have r: "removeObject b s = Inr s1" by simp
    have "pairsFaithful s1 (boxes(b := None))"
      unfolding pairsFaithful_def
      using wf1 pairsExact_removeObject [OF r wf pe] noSelfPairs_removeObject [OF r ns]
        storedAABBs_removeObject [OF r wf st] nt1 by simp
    from Cons.IH [OF rest this along] show ?thesis unfolding RemoveObject lastAABBs.simps .
  next
    case (UpdateObject b aabb)
    with s1 have u: "updateObject b aabb s = Inr s1" by simp
    have "pairsFaithful s1 (boxes(b \<mapsto> aabb))"
      unfolding pairsFaithful_def
      using wf1 pairsExact_updateObject [OF u wf pe nt nt1] noSelfPairs_updateObject [OF u wf ns]
        storedAABBs_updateObject [OF u wf st] nt1 by simp
    from Cons.IH [OF rest this along] show ?thesis unfolding UpdateObject lastAABBs.simps .
  qed
qed

lemma pairs_are_overlapping:
  assumes pf: "pairsFaithful s boxes" and pl: "pairsLogged s"
  shows "set (mOverlappingPairs s) = overlappingPairs boxes"
proof -
  from pf have wf: "wellFormed s" and pe: "pairsExact s" and ns: "noSelfPairs s"
    and st: "storedAABBs s boxes" by (simp_all add: pairsFaithful_def)
  from wf have pt: "pairsTracked s" by (simp add: wellFormed_def)
  from st have dom: "\<And>x. boxes x = None \<longleftrightarrow> mMapBodyToBoxIndex s x = None"
    and val: "\<And>x i a. mMapBodyToBoxIndex s x = Some i \<Longrightarrow> boxes x = Some a \<Longrightarrow>
         boxAABBInt s i = AABBInt_of a"
    unfolding storedAABBs_def by blast+
  have exact: "pairKey x y \<in> set (mOverlappingPairs s) \<longleftrightarrow> overlap3D (AABBInt_of a) (AABBInt_of a')"
    if "x \<noteq> y" "boxes x = Some a" "boxes y = Some a'" for x y a a'
  proof -
    from that(2) dom [of x] obtain i where i: "mMapBodyToBoxIndex s x = Some i" by auto
    from that(3) dom [of y] obtain j where j: "mMapBodyToBoxIndex s y = Some j" by auto
    from pe i j that(1) have "pairKey x y \<in> set (mOverlappingPairs s) \<longleftrightarrow>
        overlap3D (boxAABBInt s i) (boxAABBInt s j)" unfolding pairsExact_def by blast
    then show ?thesis unfolding val [OF i that(2)] val [OF j that(3)] .
  qed
  show ?thesis
  proof (intro set_eqI iffI)
    fix p assume p: "p \<in> set (mOverlappingPairs s)"
    from pairsLogged_D(2) [OF pl p] have k: "pairKey (fst p) (snd p) = p" by (rule pairKey_normal)
    from ns p have ne: "fst p \<noteq> snd p" by (simp add: noSelfPairs_def)
    from pt p have "mMapBodyToBoxIndex s (fst p) \<noteq> None" "mMapBodyToBoxIndex s (snd p) \<noteq> None"
      unfolding pairsTracked_def by auto
    with dom [of "fst p"] dom [of "snd p"] obtain a a' where
      a: "boxes (fst p) = Some a" "boxes (snd p) = Some a'" by auto
    from exact [OF ne a] p k have "overlap3D (AABBInt_of a) (AABBInt_of a')" by simp
    then have "\<exists>x y a a'. p = pairKey x y \<and> x \<noteq> y \<and> boxes x = Some a \<and> boxes y = Some a' \<and>
        overlap3D (AABBInt_of a) (AABBInt_of a')"
      using ne a k [symmetric] by (intro exI [of _ "fst p"] exI [of _ "snd p"] exI [of _ a] exI [of _ a']) simp
    then show "p \<in> overlappingPairs boxes" unfolding overlappingPairs_def by simp
  next
    fix p assume "p \<in> overlappingPairs boxes"
    then obtain x y a a' where "p = pairKey x y" "x \<noteq> y" "boxes x = Some a" "boxes y = Some a'"
      "overlap3D (AABBInt_of a) (AABBInt_of a')" unfolding overlappingPairs_def by blast
    with exact [of x y a a'] show "p \<in> set (mOverlappingPairs s)" by simp
  qed
qed

section \<open>The claims about the structure\<close>

lemmas sap_defs = addObject_def removeObject_def updateObject_def updateAxis_def
  moveEndPoint_def recheckPair_def addPair_def removePair_def emptySweepAndPrune_def Let_def
  newBoxIndex_def AABBInt_of_def encodeFloatIntoInteger_def endPointValue_def boxAABBInt_def
  overlap3D_def overlap1D_def pairKey_def

lemmas float_defs = float_finite_def float_exponent_def float_less_def float_val_def
  float_fraction_def float_sign_def

text \<open>
  Claim C3, as stated: after every finite sequence of calls from the empty structure,
  the three arrays are sorted by value and, for every live box and every axis, the value
  of its minimum end-point is at most the value of its maximum end-point. The second part
  fails for a box that is flat at zero with minimum \<open>+0.0\<close> and maximum \<open>-0.0\<close>: both
  are finite, the minimum is not above the maximum as floats, and after \<open>addObject\<close> the
  value of the maximum end-point of the box is below the value of its minimum end-point.
\<close>

theorem min_above_max_signed_zero_counterexample:
  "float_finite 0 \<and> float_finite 0x80000000 \<and> \<not> float_less 0x80000000 0 \<and>
   (case run [AddObject 7 \<lparr>min_aabb = (\<lambda>axis. 0), max_aabb = (\<lambda>axis. 0x80000000)\<rparr>]
           emptySweepAndPrune of
      Inl e \<Rightarrow> False
    | Inr s \<Rightarrow> mMapBodyToBoxIndex s 7 = Some 0 \<and>
        endPointValue (mEndPoints s 0) 0 False < endPointValue (mEndPoints s 0) 0 True)"
  by (simp add: float_defs sap_defs)

text \<open>
  Claim C3, amended: after every finite sequence of calls from the empty structure, each
  of the three arrays is sorted ascending by value; and when every AABB supplied in the
  sequence is proper on every axis (finite ends, minimum not above maximum as floats, and
  not the pair minimum \<open>+0.0\<close>, maximum \<open>-0.0\<close>), then for every live box and every axis
  the value of its minimum end-point is at most the value of its maximum end-point.
\<close>

theorem arrays_sorted_and_min_below_max:
  assumes "run ops emptySweepAndPrune = Inr s"
  shows "sorted (map value_ep (mEndPoints s 0)) \<and>
         sorted (map value_ep (mEndPoints s 1)) \<and>
         sorted (map value_ep (mEndPoints s 2)) \<and>
         (list_all properOperation ops \<longrightarrow>
            (\<forall>b i. mMapBodyToBoxIndex s b = Some i \<longrightarrow>
               (\<forall>axis \<in> {0, 1, 2}.
                  endPointValue (mEndPoints s axis) i True
                    \<le> endPointValue (mEndPoints s axis) i False)))"
proof -
  from wellFormed_run [OF assms] have "arraysSorted s" by (simp add: wellFormed_def)
  then have "sorted (map value_ep (mEndPoints s axis))" for axis by (simp add: arraysSorted_def)
  moreover have "\<forall>b i. mMapBodyToBoxIndex s b = Some i \<longrightarrow>
               (\<forall>axis \<in> {0, 1, 2}.
                  endPointValue (mEndPoints s axis) i True
                    \<le> endPointValue (mEndPoints s axis) i False)"
    if "list_all properOperation ops"
  proof -
    from minBelowMax_run_from [OF assms wellFormed_empty minBelowMax_empty that]
    have "minBelowMax s" .
    then show ?thesis unfolding minBelowMax_def liveBoxes_def ran_def by blast
  qed
  ultimately show ?thesis by blast
qed

theorem arrays_sorted_and_min_below_max_witness:
  "\<exists>s. run [AddObject 10 \<lparr>min_aabb = (\<lambda>axis. 0), max_aabb = (\<lambda>axis. 0x3F800000)\<rparr>,
            AddObject 20 \<lparr>min_aabb = (\<lambda>axis. 0x3F000000), max_aabb = (\<lambda>axis. 0x3FC00000)\<rparr>,
            UpdateObject 10 \<lparr>min_aabb = (\<lambda>axis. 0x40A00000), max_aabb = (\<lambda>axis. 0x40C00000)\<rparr>]
          emptySweepAndPrune = Inr s \<and>
        sorted (map value_ep (mEndPoints s 0)) \<and>
        mMapBodyToBoxIndex s 10 = Some 0 \<and>
        endPointValue (mEndPoints s 0) 0 True \<le> endPointValue (mEndPoints s 0) 0 False"
proof -
  let ?ops = "[AddObject 10 \<lparr>min_aabb = (\<lambda>axis. 0), max_aabb = (\<lambda>axis. 0x3F800000)\<rparr>,
            AddObject 20 \<lparr>min_aabb = (\<lambda>axis. 0x3F000000), max_aabb = (\<lambda>axis. 0x3FC00000)\<rparr>,
            UpdateObject 10 \<lparr>min_aabb = (\<lambda>axis. 0x40A00000), max_aabb = (\<lambda>axis. 0x40C00000)\<rparr>]"
  obtain s where r: "run ?ops emptySweepAndPrune = Inr s" and m: "mMapBodyToBoxIndex s 10 = Some 0"
    by (simp add: sap_defs)
  have p: "list_all properOperation ?ops"
    by (simp add: properAABB_def properInterval_def float_defs)
  from arrays_sorted_and_min_below_max [OF r] p m r show ?thesis by blast
qed

text \<open>
  Claim C5. In the notifications produced by any finite sequence of calls from the empty
  structure, the pair-added and pair-removed notifications of every unordered pair of
  bodies alternate: neither kind is sent twice in a row for the same pair.
\<close>

theorem notifications_alternate:
  assumes "run ops emptySweepAndPrune = Inr s"
  shows "alternating (notificationsOf p (mNotifications s))"
  using pairsLogged_D(3) [OF pairsLogged_run_from [OF assms pairsLogged_empty]] .

theorem notifications_alternate_witness:
  "\<exists>s. run [AddObject 10 \<lparr>min_aabb = (\<lambda>axis. 0), max_aabb = (\<lambda>axis. 0x3F800000)\<rparr>,
            AddObject 20 \<lparr>min_aabb = (\<lambda>axis. if axis = 0 then 0x40A00000 else 0),
                          max_aabb = (\<lambda>axis. if axis = 0 then 0x40C00000 else 0x3F800000)\<rparr>,
            UpdateObject 20 \<lparr>min_aabb = (\<lambda>axis. if axis = 0 then 0x3F000000 else 0),
                          max_aabb = (\<lambda>axis. if axis = 0 then 0x3FC00000 else 0x3F800000)\<rparr>,
            UpdateObject 20 \<lparr>min_aabb = (\<lambda>axis. if axis = 0 then 0x40A00000 else 0),
                          max_aabb = (\<lambda>axis. if axis = 0 then 0x40C00000 else 0x3F800000)\<rparr>]
          emptySweepAndPrune = Inr s \<and>
        mNotifications s = [PairAdded 20 10, PairRemoved 20 10] \<and>
        alternating (notificationsOf (10, 20) (mNotifications s))"
proof -
  let ?ops = "[AddObject 10 \<lparr>min_aabb = (\<lambda>axis. 0), max_aabb = (\<lambda>axis. 0x3F800000)\<rparr>,
            AddObject 20 \<lparr>min_aabb = (\<lambda>axis. if axis = 0 then 0x40A00000 else 0),
                          max_aabb = (\<lambda>axis. if axis = 0 then 0x40C00000 else 0x3F800000)\<rparr>,
            UpdateObject 20 \<lparr>min_aabb = (\<lambda>axis. if axis = 0 then 0x3F000000 else 0),
                          max_aabb = (\<lambda>axis. if axis = 0 then 0x3FC00000 else 0x3F800000)\<rparr>,
            UpdateObject 20 \<lparr>min_aabb = (\<lambda>axis. if axis = 0 then 0x40A00000 else 0),
                          max_aabb = (\<lambda>axis. if axis = 0 then 0x40C00000 else 0x3F800000)\<rparr>]"
  obtain s where r: "run ?ops emptySweepAndPrune = Inr s"
    and n: "mNotifications s = [PairAdded 20 10, PairRemoved 20 10]"
    by (simp add: sap_defs)
  from notifications_alternate [OF r, of "(10, 20)"] r n show ?thesis by blast
qed

text \<open>
  Claim C6. For every state reached by a finite sequence of calls from the empty
  structure and every untracked body, \<open>addObject\<close> followed at once by \<open>removeObject\<close> of
  that body succeeds and yields a state whose three end-point arrays hold the same
  sequences of markers and whose set of overlapping pairs is the same as before.
\<close>

theorem add_then_remove_round_trip:
  assumes "run ops emptySweepAndPrune = Inr s" and "mMapBodyToBoxIndex s b = None"
  shows "\<exists>s1 s2. addObject b aabb s = Inr s1 \<and> removeObject b s1 = Inr s2 \<and>
           mEndPoints s2 0 = mEndPoints s 0 \<and>
           mEndPoints s2 1 = mEndPoints s 1 \<and>
           mEndPoints s2 2 = mEndPoints s 2 \<and>
           set (mOverlappingPairs s2) = set (mOverlappingPairs s)"
proof -
  from addObject_removeObject [OF wellFormed_run [OF assms(1)] assms(2), of aabb]
  obtain s1 s2 where "addObject b aabb s = Inr s1" "removeObject b s1 = Inr s2"
    "mEndPoints s2 = mEndPoints s" "set (mOverlappingPairs s2) = set (mOverlappingPairs s)"
    by blast
  then show ?thesis by auto
qed

theorem add_then_remove_round_trip_witness:
  "\<exists>s s1 s2.
      run [AddObject 10 \<lparr>min_aabb = (\<lambda>axis. 0), max_aabb = (\<lambda>axis. 0x3F800000)\<rparr>]
        emptySweepAndPrune = Inr s \<and>
      mMapBodyToBoxIndex s 20 = None \<and>
      addObject 20 \<lparr>min_aabb = (\<lambda>axis. 0x3F000000), max_aabb = (\<lambda>axis. 0x3FC00000)\<rparr> s = Inr s1 \<and>
      mOverlappingPairs s1 = [(10, 20)] \<and>
      removeObject 20 s1 = Inr s2 \<and>
      mEndPoints s2 0 = mEndPoints s 0 \<and>
      set (mOverlappingPairs s2) = set (mOverlappingPairs s)"
proof -
  let ?ops = "[AddObject 10 \<lparr>min_aabb = (\<lambda>axis. 0), max_aabb = (\<lambda>axis. 0x3F800000)\<rparr>]"
  let ?box = "\<lparr>min_aabb = (\<lambda>axis. 0x3F000000), max_aabb = (\<lambda>axis. 0x3FC00000)\<rparr>"
  obtain s where r: "run ?ops emptySweepAndPrune = Inr s"
    and m: "mMapBodyToBoxIndex s 20 = None"
    and p: "\<forall>s1. addObject 20 ?box s = Inr s1 \<longrightarrow> mOverlappingPairs s1 = [(10, 20)]"
    by (simp add: sap_defs)
  from add_then_remove_round_trip [OF r m, of ?box] r m p show ?thesis by blast
qed

text \<open>
  Claim C4, as stated: after every finite sequence of calls from the empty structure, the
  set of pairs reported at present equals the set of pairs of live bodies whose AABBs
  supplied last overlap on the three axes. It fails in two ways. First, a box that ends at
  \<open>-0.0\<close> on an axis and a box that starts at \<open>+0.0\<close> there overlap as floats, but the
  encoded maximum of the first is below the encoded minimum of the second, and no pair is
  reported when the second box is added. Second, when a box is updated so that its maximum
  reaches exactly the minimum of another box, the two markers have the same value and are
  not exchanged, so no recheck happens and no pair is reported although the boxes touch.
\<close>

theorem reported_pairs_miss_float_overlap_counterexample:
  "properAABB \<lparr>min_aabb = (\<lambda>axis. if axis = 0 then 0xBF800000 else 0),
               max_aabb = (\<lambda>axis. if axis = 0 then 0x80000000 else 0x3F800000)\<rparr> \<and>
   properAABB \<lparr>min_aabb = (\<lambda>axis. 0), max_aabb = (\<lambda>axis. 0x3F800000)\<rparr> \<and>
   floatOverlap \<lparr>min_aabb = (\<lambda>axis. if axis = 0 then 0xBF800000 else 0),
                 max_aabb = (\<lambda>axis. if axis = 0 then 0x80000000 else 0x3F800000)\<rparr>
                \<lparr>min_aabb = (\<lambda>axis. 0), max_aabb = (\<lambda>axis. 0x3F800000)\<rparr> \<and>
   (case run [AddObject 10 \<lparr>min_aabb = (\<lambda>axis. if axis = 0 then 0xBF800000 else 0),
                            max_aabb = (\<lambda>axis. if axis = 0 then 0x80000000 else 0x3F800000)\<rparr>,
              AddObject 20 \<lparr>min_aabb = (\<lambda>axis. 0), max_aabb = (\<lambda>axis. 0x3F800000)\<rparr>]
           emptySweepAndPrune of
      Inl e \<Rightarrow> False
    | Inr s \<Rightarrow> mMapBodyToBoxIndex s 10 = Some 0 \<and> mMapBodyToBoxIndex s 20 = Some 1 \<and>
        mNotifications s = [] \<and> (10, 20) \<notin> reportedPairs (mNotifications s)) \<and>
   properAABB \<lparr>min_aabb = (\<lambda>axis. 0),
               max_aabb = (\<lambda>axis. if axis = 0 then 0x40A00000 else 0x3F800000)\<rparr> \<and>
   properAABB \<lparr>min_aabb = (\<lambda>axis. if axis = 0 then 0x40A00000 else 0),
               max_aabb = (\<lambda>axis. if axis = 0 then 0x40C00000 else 0x3F800000)\<rparr> \<and>
   floatOverlap \<lparr>min_aabb = (\<lambda>axis. 0),
                 max_aabb = (\<lambda>axis. if axis = 0 then 0x40A00000 else 0x3F800000)\<rparr>
                \<lparr>min_aabb = (\<lambda>axis. if axis = 0 then 0x40A00000 else 0),
                 max_aabb = (\<lambda>axis. if axis = 0 then 0x40C00000 else 0x3F800000)\<rparr> \<and>
   (case run [AddObject 10 \<lparr>min_aabb = (\<lambda>axis. 0), max_aabb = (\<lambda>axis. 0x3F800000)\<rparr>,
              AddObject 20 \<lparr>min_aabb = (\<lambda>axis. if axis = 0 then 0x40A00000 else 0),
                            max_aabb = (\<lambda>axis. if axis = 0 then 0x40C00000 else 0x3F800000)\<rparr>,
              UpdateObject 10 \<lparr>min_aabb = (\<lambda>axis. 0),
                            max_aabb = (\<lambda>axis. if axis = 0 then 0x40A00000 else 0x3F800000)\<rparr>]
           emptySweepAndPrune of
      Inl e \<Rightarrow> False
    | Inr s \<Rightarrow> mMapBodyToBoxIndex s 10 = Some 0 \<and> mMapBodyToBoxIndex s 20 = Some 1 \<and>
        mNotifications s = [] \<and> (10, 20) \<notin> reportedPairs (mNotifications s))"
  by (simp add: float_defs sap_defs properAABB_def properInterval_def floatOverlap_def
      floatOverlap1D_def reportedPairs_def reported_def notificationsOf_def)

text \<open>
  Claim C4, amended. For every sequence of calls that runs without error from the empty
  structure and after each call of which no minimum marker has the value of a maximum
  marker of another box on the same axis, the set of pairs reported at present (a
  pair-added notification with no later pair-removed one) equals the set of pairs of
  distinct live bodies whose AABBs supplied last, once encoded into integers, overlap on
  the three axes.
\<close>

theorem reported_pairs_are_encoded_overlaps:
  assumes "run ops emptySweepAndPrune = Inr s" and "noTouchingAlong ops emptySweepAndPrune"
  shows "reportedPairs (mNotifications s) = overlappingPairs (lastAABBs ops Map.empty)"
proof -
  have pl: "pairsLogged s" by (rule pairsLogged_run_from [OF assms(1) pairsLogged_empty])
  have pf: "pairsFaithful s (lastAABBs ops Map.empty)"
    by (rule pairsFaithful_run_from [OF assms(1) pairsFaithful_empty assms(2)])
  have "reportedPairs (mNotifications s) = set (mOverlappingPairs s)"
    unfolding reportedPairs_def using pairsLogged_D(4) [OF pl] by blast
  then show ?thesis unfolding pairs_are_overlapping [OF pf pl] .
qed

theorem reported_pairs_are_encoded_overlaps_witness:
  "\<exists>s. run [AddObject 10 \<lparr>min_aabb = (\<lambda>axis. 0), max_aabb = (\<lambda>axis. 0x3F800000)\<rparr>,
            AddObject 20 \<lparr>min_aabb = (\<lambda>axis. if axis = 0 then 0x40A00000 else 0),
                          max_aabb = (\<lambda>axis. if axis = 0 then 0x40C00000 else 0x3F800000)\<rparr>,
            UpdateObject 20 \<lparr>min_aabb = (\<lambda>axis. if axis = 0 then 0x3F000000 else 0),
                          max_aabb = (\<lambda>axis. if axis = 0 then 0x3FC00000 else 0x3F800000)\<rparr>]
          emptySweepAndPrune = Inr s \<and>
        noTouchingAlong
          [AddObject 10 \<lparr>min_aabb = (\<lambda>axis. 0), max_aabb = (\<lambda>axis. 0x3F800000)\<rparr>,
            AddObject 20 \<lparr>min_aabb = (\<lambda>axis. if axis = 0 then 0x40A00000 else 0),
                          max_aabb = (\<lambda>axis. if axis = 0 then 0x40C00000 else 0x3F800000)\<rparr>,
            UpdateObject 20 \<lparr>min_aabb = (\<lambda>axis. if axis = 0 then 0x3F000000 else 0),
                          max_aabb = (\<lambda>axis. if axis = 0 then 0x3FC00000 else 0x3F800000)\<rparr>]
          emptySweepAndPrune \<and>
        mNotifications s = [PairAdded 20 10] \<and>
        (10, 20) \<in> reportedPairs (mNotifications s) \<and>
        reportedPairs (mNotifications s) =
          overlappingPairs (lastAABBs
          [AddObject 10 \<lparr>min_aabb = (\<lambda>axis. 0), max_aabb = (\<lambda>axis. 0x3F800000)\<rparr>,
            AddObject 20 \<lparr>min_aabb = (\<lambda>axis. if axis = 0 then 0x40A00000 else 0),
                          max_aabb = (\<lambda>axis. if axis = 0 then 0x40C00000 else 0x3F800000)\<rparr>,
            UpdateObject 20 \<lparr>min_aabb = (\<lambda>axis. if axis = 0 then 0x3F000000 else 0),
                          max_aabb = (\<lambda>axis. if axis = 0 then 0x3FC00000 else 0x3F800000)\<rparr>]
           Map.empty)"
proof -
  let ?ops = "[AddObject 10 \<lparr>min_aabb = (\<lambda>axis. 0), max_aabb = (\<lambda>axis. 0x3F800000)\<rparr>,
            AddObject 20 \<lparr>min_aabb = (\<lambda>axis. if axis = 0 then 0x40A00000 else 0),
                          max_aabb = (\<lambda>axis. if axis = 0 then 0x40C00000 else 0x3F800000)\<rparr>,
            UpdateObject 20 \<lparr>min_aabb = (\<lambda>axis. if axis = 0 then 0x3F000000 else 0),
                          max_aabb = (\<lambda>axis. if axis = 0 then 0x3FC00000 else 0x3F800000)\<rparr>]"
  obtain s where r: "run ?ops emptySweepAndPrune = Inr s"
    and n: "mNotifications s = [PairAdded 20 10]"
    by (simp add: sap_defs)
  have t: "noTouchingAlong ?ops emptySweepAndPrune"
    by (simp add: sap_defs noTouching_def noTouchingAxis_def)
  have m: "(10, 20) \<in> reportedPairs (mNotifications s)"
    unfolding n by (simp add: reportedPairs_def reported_def notificationsOf_def pairKey_def)
  from reported_pairs_are_encoded_overlaps [OF r t] r t n m show ?thesis by blast
qed

end
